theory Spec2Isabelle
  imports Main "HOL-Library.AList"
begin

section \<open>JavaScript values and strings\<close>

text \<open>
  The engine works on untyped JSON-like data (\<^verbatim>\<open>unknown\<close>, \<^verbatim>\<open>Record<string, unknown>\<close>).
  Values are a tagged variant.  Numbers are the integers among the JavaScript numbers, a
  string is a list of characters, and the list of an object is the sequence of its own
  properties in the order in which \<^verbatim>\<open>Object.entries\<close> enumerates them (keys are distinct).

  An object or an array also has the members that it inherits from its prototype, and the
  operator \<^verbatim>\<open>in\<close> and a property read see them. So a value can also be
  \<^item> \<open>JHost h\<close>, an object of the runtime that is not data: a built-in function (such as
    \<^verbatim>\<open>Object.prototype.toString\<close>) or a built-in prototype, named by \<open>h\<close>;
  \<^item> \<open>JObjProto p kvs\<close>, an object with the own properties \<open>kvs\<close> whose prototype has been set
    to \<open>p\<close> (an assignment to \<^verbatim>\<open>__proto__\<close> does that).
  The prototype of \<open>JObj kvs\<close> is \<^verbatim>\<open>Object.prototype\<close> and the prototype of \<open>JArr xs\<close> is
  \<^verbatim>\<open>Array.prototype\<close>.
\<close>

datatype json =
    JUndefined
  | JNull
  | JBool bool
  | JNum int
  | JStr string
  | JArr "json list"
  | JObj "(string \<times> json) list"
  | JHost string
  | JObjProto json "(string \<times> json) list"

text \<open>
  What the runtime holds is not code of the repository, so the model is parameterised by
  it. For a built-in object \<open>h\<close>:
  \<^item> \<open>host_callable h\<close>: \<^verbatim>\<open>typeof h === "function"\<close> (otherwise it is \<^verbatim>\<open>"object"\<close>);
  \<^item> \<open>host_array h\<close>: \<^verbatim>\<open>Array.isArray(h)\<close>, which holds of \<^verbatim>\<open>Array.prototype\<close>; such an object
    has no elements;
  \<^item> \<open>host_has h k\<close>: \<^verbatim>\<open>k in h\<close>, for a member of \<open>h\<close> itself or one that \<open>h\<close> inherits;
  \<^item> \<open>host_get h v k\<close>: what reading that member gives when the read started at the value
    \<open>v\<close> (the accessor \<^verbatim>\<open>__proto__\<close> answers with the prototype of \<open>v\<close>).
  The properties of built-in objects are not enumerable: \<^verbatim>\<open>Object.keys\<close> and
  \<^verbatim>\<open>Object.entries\<close> of a built-in object are empty.
\<close>

record Runtime =
  host_callable :: "string \<Rightarrow> bool"
  host_array :: "string \<Rightarrow> bool"
  host_has :: "string \<Rightarrow> string \<Rightarrow> bool"
  host_get :: "string \<Rightarrow> json \<Rightarrow> string \<Rightarrow> json"

definition object_prototype :: string where
  "object_prototype = ''Object.prototype''"

definition array_prototype :: string where
  "array_prototype = ''Array.prototype''"

text \<open>The prototype in which the members of a value that is not an object are looked up.\<close>

definition string_prototype :: string where
  "string_prototype = ''String.prototype''"

definition number_prototype :: string where
  "number_prototype = ''Number.prototype''"

definition boolean_prototype :: string where
  "boolean_prototype = ''Boolean.prototype''"

text \<open>A name that every plain object inherits, such as \<^verbatim>\<open>constructor\<close> or \<^verbatim>\<open>toString\<close>.\<close>

definition inherited :: "Runtime \<Rightarrow> string \<Rightarrow> bool" where
  "inherited rt k = host_has rt object_prototype k"

subsection \<open>Decimal numerals\<close>

definition digit_val :: "char \<Rightarrow> nat option" where
  "digit_val c =
     map_of [(CHR ''0'', 0), (CHR ''1'', 1), (CHR ''2'', 2), (CHR ''3'', 3), (CHR ''4'', 4),
             (CHR ''5'', 5), (CHR ''6'', 6), (CHR ''7'', 7), (CHR ''8'', 8), (CHR ''9'', 9)] c"

definition is_digit :: "char \<Rightarrow> bool" where
  "is_digit c = (digit_val c \<noteq> None)"

definition digit_char :: "nat \<Rightarrow> char" where
  "digit_char d = ''0123456789'' ! (d mod 10)"

text \<open>The value of a run of decimal digits, most significant digit first.\<close>

fun digits_val :: "nat \<Rightarrow> string \<Rightarrow> nat" where
  "digits_val acc [] = acc"
| "digits_val acc (c # cs) = digits_val (10 * acc + the (digit_val c)) cs"

text \<open>\<^verbatim>\<open>String(n)\<close> for a non-negative integer and for an integer.\<close>

fun show_nat :: "nat \<Rightarrow> string" where
  "show_nat n = (if n < 10 then [digit_char n] else show_nat (n div 10) @ [digit_char n])"

definition show_int :: "int \<Rightarrow> string" where
  "show_int i = (if i < 0 then CHR ''-'' # show_nat (nat (- i)) else show_nat (nat i))"

text \<open>
  \<^verbatim>\<open>parseInt(s, 10)\<close>: leading white space is skipped, a sign is optional, the longest run
  of digits is read, and the result is \<^verbatim>\<open>NaN\<close> (here \<open>None\<close>) when there is no digit.
\<close>

definition is_space :: "char \<Rightarrow> bool" where
  "is_space c = (c \<in> set [CHR '' '', CHR 0x09, CHR 0x0A, CHR 0x0B, CHR 0x0C, CHR 0x0D])"

definition parseInt :: "string \<Rightarrow> int option" where
  "parseInt s =
     (let t = dropWhile is_space s;
          neg = (t \<noteq> [] \<and> hd t = CHR ''-'');
          u = (if t \<noteq> [] \<and> (hd t = CHR ''-'' \<or> hd t = CHR ''+'') then tl t else t);
          ds = takeWhile is_digit u
      in if ds = [] then None
         else Some (if neg then - int (digits_val 0 ds) else int (digits_val 0 ds)))"

text \<open>
  An array index is a canonical numeric string below \<open>2^32 - 1\<close>; such keys are what
  an array answers to and what an object enumerates first.
\<close>

definition array_index :: "string \<Rightarrow> nat option" where
  "array_index s =
     (if s \<noteq> [] \<and> list_all is_digit s \<and> (hd s \<noteq> CHR ''0'' \<or> length s = 1)
         \<and> int (digits_val 0 s) < 4294967295
      then Some (digits_val 0 s) else None)"

subsection \<open>String operations\<close>

text \<open>\<^verbatim>\<open>s.split(c)\<close> for a one-character separator: never empty, one part more than separators.\<close>

fun split_on :: "char \<Rightarrow> string \<Rightarrow> string list" where
  "split_on c [] = [[]]"
| "split_on c (x # xs) =
     (if x = c then [] # split_on c xs
      else (case split_on c xs of [] \<Rightarrow> [[x]] | p # ps \<Rightarrow> (x # p) # ps))"

definition trim :: "string \<Rightarrow> string" where
  "trim s = rev (dropWhile is_space (rev (dropWhile is_space s)))"

text \<open>\<^verbatim>\<open>s.replace("]", "")\<close>: the first occurrence only.\<close>

fun remove_first :: "char \<Rightarrow> string \<Rightarrow> string" where
  "remove_first c [] = []"
| "remove_first c (x # xs) = (if x = c then xs else x # remove_first c xs)"

text \<open>\<^verbatim>\<open>parts.join(sep)\<close>.\<close>

fun join :: "string \<Rightarrow> string list \<Rightarrow> string" where
  "join sep [] = []"
| "join sep [p] = p"
| "join sep (p # q # ps) = p @ sep @ join sep (q # ps)"

subsection \<open>Property access\<close>

text \<open>\<^verbatim>\<open>typeof v === "object" && v !== null\<close>\<close>

fun is_object :: "Runtime \<Rightarrow> json \<Rightarrow> bool" where
  "is_object rt (JObj kvs) = True"
| "is_object rt (JObjProto p kvs) = True"
| "is_object rt (JArr xs) = True"
| "is_object rt (JHost h) = (\<not> host_callable rt h)"
| "is_object rt v = False"

text \<open>\<^verbatim>\<open>Array.isArray(v)\<close>, and the elements of such a value.\<close>

fun is_array :: "Runtime \<Rightarrow> json \<Rightarrow> bool" where
  "is_array rt (JArr xs) = True"
| "is_array rt (JHost h) = host_array rt h"
| "is_array rt v = False"

fun items :: "json \<Rightarrow> json list" where
  "items (JArr xs) = xs"
| "items v = []"

text \<open>\<^verbatim>\<open>Object.entries(v)\<close> for an object that is not an array: its own enumerable properties.\<close>

fun entries :: "json \<Rightarrow> (string \<times> json) list" where
  "entries (JObj kvs) = kvs"
| "entries (JObjProto p kvs) = kvs"
| "entries v = []"

text \<open>
  The own properties of a value under a string key: the properties of an object; the
  indices and \<^verbatim>\<open>length\<close> of an array and of a string.
\<close>

fun own_prop :: "json \<Rightarrow> string \<Rightarrow> json option" where
  "own_prop (JObj kvs) k = map_of kvs k"
| "own_prop (JObjProto p kvs) k = map_of kvs k"
| "own_prop (JArr xs) k =
     (if k = ''length'' then Some (JNum (int (length xs)))
      else (case array_index k of
              Some i \<Rightarrow> if i < length xs then Some (xs ! i) else None
            | None \<Rightarrow> None))"
| "own_prop (JStr s) k =
     (if k = ''length'' then Some (JNum (int (length s)))
      else (case array_index k of
              Some i \<Rightarrow> if i < length s then Some (JStr [s ! i]) else None
            | None \<Rightarrow> None))"
| "own_prop v k = None"

text \<open>
  The member \<open>k\<close> that a read starting at \<open>recv\<close> finds from \<open>v\<close> on along the prototype chain:
  an own property, or else the member of the prototype. The chain of a built-in object is
  the runtime's; a prototype \<^verbatim>\<open>null\<close> ends the chain.
\<close>

fun member_from :: "Runtime \<Rightarrow> json \<Rightarrow> json \<Rightarrow> string \<Rightarrow> json option" where
  "member_from rt recv (JObjProto p kvs) k =
     (case map_of kvs k of Some x \<Rightarrow> Some x | None \<Rightarrow> member_from rt recv p k)"
| "member_from rt recv (JHost h) k =
     (if host_has rt h k then Some (host_get rt h recv k) else None)"
| "member_from rt recv (JObj kvs) k =
     (case map_of kvs k of
        Some x \<Rightarrow> Some x
      | None \<Rightarrow> if host_has rt object_prototype k
                then Some (host_get rt object_prototype recv k) else None)"
| "member_from rt recv (JArr xs) k =
     (case own_prop (JArr xs) k of
        Some x \<Rightarrow> Some x
      | None \<Rightarrow> if host_has rt array_prototype k
                then Some (host_get rt array_prototype recv k) else None)"
| "member_from rt recv (JStr s) k =
     (case own_prop (JStr s) k of
        Some x \<Rightarrow> Some x
      | None \<Rightarrow> if host_has rt string_prototype k
                then Some (host_get rt string_prototype recv k) else None)"
| "member_from rt recv (JNum n) k =
     (if host_has rt number_prototype k then Some (host_get rt number_prototype recv k) else None)"
| "member_from rt recv (JBool b) k =
     (if host_has rt boolean_prototype k then Some (host_get rt boolean_prototype recv k) else None)"
| "member_from rt recv JNull k = None"
| "member_from rt recv JUndefined k = None"

definition member :: "Runtime \<Rightarrow> json \<Rightarrow> string \<Rightarrow> json option" where
  "member rt v k = member_from rt v v k"

text \<open>\<^verbatim>\<open>k in v\<close> and \<^verbatim>\<open>v[k]\<close> for a string key. Both see inherited members.\<close>

definition has_prop :: "Runtime \<Rightarrow> json \<Rightarrow> string \<Rightarrow> bool" where
  "has_prop rt v k = (member rt v k \<noteq> None)"

definition get_prop :: "Runtime \<Rightarrow> json \<Rightarrow> string \<Rightarrow> json" where
  "get_prop rt v k = (case member rt v k of None \<Rightarrow> JUndefined | Some x \<Rightarrow> x)"

section \<open>The expression evaluator\<close>

text \<open>
  The first match of \<^verbatim>\<open>/\[(\d+)\]/\<close> in a string: the digits captured by the group.
\<close>

fun match_index :: "string \<Rightarrow> string option" where
  "match_index [] = None"
| "match_index (c # cs) =
     (if c = CHR ''['' \<and> takeWhile is_digit cs \<noteq> []
         \<and> dropWhile is_digit cs \<noteq> [] \<and> hd (dropWhile is_digit cs) = CHR '']''
      then Some (takeWhile is_digit cs)
      else match_index cs)"

text \<open>
  The loop over the tokens of a dotted path in \<^verbatim>\<open>jqSingle\<close>. An empty token is skipped;
  a token with a bracket addresses the field before the bracket (when there is one) and
  then an index, and an index that the value does not have ends the whole evaluation
  with \<^verbatim>\<open>null\<close>. The test for a field is \<^verbatim>\<open>tok in cur\<close>, which also holds of an inherited
  member.
\<close>

fun jqPath :: "Runtime \<Rightarrow> json \<Rightarrow> string list \<Rightarrow> string + json" where
  "jqPath rt cur [] = Inr cur"
| "jqPath rt cur (tok # toks) =
     (if tok = [] then jqPath rt cur toks
      else if CHR ''['' \<in> set tok then
        (let head = takeWhile (\<lambda>c. c \<noteq> CHR ''['') tok;
             indexPart = dropWhile (\<lambda>c. c \<noteq> CHR ''['') tok
         in if head \<noteq> [] \<and> \<not> (is_object rt cur \<and> has_prop rt cur head)
            then Inl (''field not found: '' @ head)
            else (let cur' = (if head \<noteq> [] then get_prop rt cur head else cur)
                  in case match_index indexPart of
                       None \<Rightarrow> Inl (''invalid index: '' @ indexPart)
                     | Some ds \<Rightarrow>
                         if \<not> is_array rt cur' \<or> digits_val 0 ds \<ge> length (items cur')
                         then Inr JNull
                         else jqPath rt (items cur' ! digits_val 0 ds) toks))
      else if \<not> (is_object rt cur \<and> has_prop rt cur tok) then Inl (''field not found: '' @ tok)
      else jqPath rt (get_prop rt cur tok) toks)"

definition jqSingle :: "Runtime \<Rightarrow> json \<Rightarrow> string \<Rightarrow> string + json" where
  "jqSingle rt data expr =
     (if expr = [] \<or> expr = ''.'' then Inr data
      else if expr = ''to_entries'' then
        (if \<not> is_object rt data \<or> is_array rt data then Inl ''to_entries requires object input''
         else Inr (JArr (map (\<lambda>(k, v). JObj [(''key'', JStr k), (''value'', v)]) (entries data))))
      else if expr = ''keys'' then
        (if \<not> is_object rt data \<or> is_array rt data then Inl ''keys requires object input''
         else Inr (JArr (map (\<lambda>(k, v). JStr k) (entries data))))
      else if expr = ''length'' then
        (if is_array rt data then Inr (JNum (int (length (items data))))
         else if is_object rt data then Inr (JNum (int (length (entries data))))
         else (case data of
                 JStr s \<Rightarrow> Inr (JNum (int (length s)))
               | _ \<Rightarrow> Inl ''length requires array, object, or string''))
      else if hd expr \<noteq> CHR ''.'' then Inl (''expression must start with '' @ [CHR 0x27] @ ''.'' @ [CHR 0x27] @ '', got: '' @ expr)
      else if tl expr = [] then Inr data
      else jqPath rt data (split_on CHR ''.'' (tl expr)))"

text \<open>The loop over the pipe-separated stages in \<^verbatim>\<open>jqEval\<close>; a failing stage ends it.\<close>

fun jqStages :: "Runtime \<Rightarrow> json \<Rightarrow> string list \<Rightarrow> string + json" where
  "jqStages rt cur [] = Inr cur"
| "jqStages rt cur (part # parts) =
     (case jqSingle rt cur part of Inl e \<Rightarrow> Inl e | Inr v \<Rightarrow> jqStages rt v parts)"

definition jqEval :: "Runtime \<Rightarrow> json \<Rightarrow> string \<Rightarrow> string + json" where
  "jqEval rt data expr =
     (if expr = [] \<or> expr = ''.'' then Inr data
      else jqStages rt data (map trim (split_on CHR ''|'' expr)))"

section \<open>Reference resolution\<close>

text \<open>
  The execution context maps a node identifier to the output of that node. It is a plain
  JavaScript object, \<open>JObj context\<close>, whose own properties are the outputs stored so far;
  \<^verbatim>\<open>nodeId in context\<close> and \<^verbatim>\<open>context[nodeId]\<close> also see the members that it inherits.
\<close>

type_synonym ExecutionContext = "(string \<times> json) list"

text \<open>
  The loop of \<^verbatim>\<open>resolveRef\<close> over the tokens after \<^verbatim>\<open>output\<close>. The first argument is the
  whole path, for the messages. \<^verbatim>\<open>parseInt\<close> may give \<^verbatim>\<open>NaN\<close>; both comparisons with the
  index are then false and the array is read at the key \<^verbatim>\<open>NaN\<close>.
\<close>

fun refTokens :: "Runtime \<Rightarrow> string \<Rightarrow> json \<Rightarrow> string list \<Rightarrow> string + json" where
  "refTokens rt path val [] = Inr val"
| "refTokens rt path val (token # toks) =
     (if CHR ''['' \<in> set token \<and> last token = CHR '']'' then
        (let head = split_on CHR ''['' token ! 0;
             idxRaw = split_on CHR ''['' token ! 1;
             idx = parseInt (remove_first CHR '']'' idxRaw)
         in if head \<noteq> [] \<and> \<not> (is_object rt val \<and> has_prop rt val head)
            then Inl (''$ref field not found: '' @ path)
            else (let val' = (if head \<noteq> [] then get_prop rt val head else val)
                  in if \<not> is_array rt val'
                     then Inl (''$ref index out of range: '' @ path)
                     else (case idx of
                             None \<Rightarrow> refTokens rt path (get_prop rt val' ''NaN'') toks
                           | Some i \<Rightarrow>
                               if i < 0 \<or> i \<ge> int (length (items val'))
                               then Inl (''$ref index out of range: '' @ path)
                               else refTokens rt path (items val' ! nat i) toks)))
      else if \<not> (is_object rt val \<and> has_prop rt val token)
        then Inl (''$ref field not found: '' @ path)
      else refTokens rt path (get_prop rt val token) toks)"

definition resolveRef :: "Runtime \<Rightarrow> string \<Rightarrow> ExecutionContext \<Rightarrow> string + json" where
  "resolveRef rt path context =
     (let parts = split_on CHR ''.'' path
      in if length parts < 5 \<or> parts ! 0 \<noteq> ''$'' \<or> parts ! 1 \<noteq> ''nodes''
            \<or> parts ! 3 \<noteq> ''output''
         then Inl (''Unsupported $ref path: '' @ path)
         else if \<not> has_prop rt (JObj context) (parts ! 2)
         then Inl (''$ref to unknown node: '' @ parts ! 2)
         else refTokens rt path (get_prop rt (JObj context) (parts ! 2)) (drop 4 parts))"

text \<open>
  \<^verbatim>\<open>result[k] = v\<close> on the object that \<^verbatim>\<open>resolveInput\<close> builds. The key \<^verbatim>\<open>__proto__\<close> is an
  accessor that the object inherits: the assignment sets the prototype of the object when
  \<open>v\<close> is an object or \<^verbatim>\<open>null\<close> and does nothing otherwise, and in neither case does the
  object get a property. Every other key becomes an own property.
\<close>

fun is_prototype :: "json \<Rightarrow> bool" where
  "is_prototype JNull = True"
| "is_prototype (JObj kvs) = True"
| "is_prototype (JObjProto p kvs) = True"
| "is_prototype (JArr xs) = True"
| "is_prototype (JHost h) = True"
| "is_prototype v = False"

fun assign :: "Runtime \<Rightarrow> string \<Rightarrow> json \<Rightarrow> json \<Rightarrow> json" where
  "assign rt k v (JObj kvs) =
     (if k = ''__proto__'' \<and> has_prop rt (JObj kvs) k \<and> map_of kvs k = None
      then (if is_prototype v then JObjProto v kvs else JObj kvs)
      else JObj (AList.update k v kvs))"
| "assign rt k v (JObjProto p kvs) =
     (if k = ''__proto__'' \<and> has_prop rt (JObjProto p kvs) k \<and> map_of kvs k = None
      then (if is_prototype v then JObjProto v kvs else JObjProto p kvs)
      else JObjProto p (AList.update k v kvs))"
| "assign rt k v obj = obj"

text \<open>
  \<^verbatim>\<open>Object.keys(record).length === 1 && typeof record["$ref"] === "string"\<close>: the path of an
  object that is a reference.
\<close>

definition reference :: "Runtime \<Rightarrow> json \<Rightarrow> string option" where
  "reference rt record =
     (if length (entries record) = 1
      then (case get_prop rt record ''$ref'' of JStr path \<Rightarrow> Some path | _ \<Rightarrow> None)
      else None)"

text \<open>
  \<^verbatim>\<open>resolveInput\<close> recurses through objects and arrays; the first failing member ends
  the traversal, as the exception does. An object with a single own key whose member
  \<^verbatim>\<open>$ref\<close> is a string is a reference. The members of an object are assigned one after the
  other to a new object, the last argument of \<open>resolveMembers\<close>.
\<close>

fun resolveInput :: "Runtime \<Rightarrow> json \<Rightarrow> ExecutionContext \<Rightarrow> string + json"
  and resolveMembers :: "Runtime \<Rightarrow> (string \<times> json) list \<Rightarrow> ExecutionContext \<Rightarrow> json \<Rightarrow> string + json"
  and resolveItems :: "Runtime \<Rightarrow> json list \<Rightarrow> ExecutionContext \<Rightarrow> string + json list"
where
  "resolveInput rt (JObj kvs) context =
     (case reference rt (JObj kvs) of
        Some path \<Rightarrow> resolveRef rt path context
      | None \<Rightarrow> resolveMembers rt kvs context (JObj []))"
| "resolveInput rt (JObjProto p kvs) context =
     (case reference rt (JObjProto p kvs) of
        Some path \<Rightarrow> resolveRef rt path context
      | None \<Rightarrow> resolveMembers rt kvs context (JObj []))"
| "resolveInput rt (JArr xs) context =
     (case resolveItems rt xs context of Inl e \<Rightarrow> Inl e | Inr ys \<Rightarrow> Inr (JArr ys))"
| "resolveInput rt (JHost h) context =
     (if host_callable rt h then Inr (JHost h)
      else if host_array rt h then Inr (JArr [])
      else Inr (JObj []))"
| "resolveInput rt JUndefined context = Inr JUndefined"
| "resolveInput rt JNull context = Inr JNull"
| "resolveInput rt (JBool b) context = Inr (JBool b)"
| "resolveInput rt (JNum n) context = Inr (JNum n)"
| "resolveInput rt (JStr s) context = Inr (JStr s)"
| "resolveMembers rt [] context result = Inr result"
| "resolveMembers rt ((k, v) # kvs) context result =
     (case resolveInput rt v context of
        Inl e \<Rightarrow> Inl e
      | Inr v' \<Rightarrow> resolveMembers rt kvs context (assign rt k v' result))"
| "resolveItems rt [] context = Inr []"
| "resolveItems rt (x # xs) context =
     (case resolveInput rt x context of
        Inl e \<Rightarrow> Inl e
      | Inr y \<Rightarrow> (case resolveItems rt xs context of
                   Inl e \<Rightarrow> Inl e
                 | Inr ys \<Rightarrow> Inr (y # ys)))"

subsection \<open>Reference paths as the specification describes them\<close>

text \<open>
  A path token is a field name, or a field name with a bracketed index (\<^verbatim>\<open>field[2]\<close>:
  descend into the field, then take position 2 of the sequence found there; the field
  name may be empty, which indexes the current value itself).
\<close>

datatype sel = Field string | FieldAt string nat

fun sel_name :: "sel \<Rightarrow> string" where
  "sel_name (Field f) = f"
| "sel_name (FieldAt f i) = f"

fun render_sel :: "sel \<Rightarrow> string" where
  "render_sel (Field f) = f"
| "render_sel (FieldAt f i) = f @ ''['' @ show_nat i @ '']''"

definition render_path :: "string \<Rightarrow> sel list \<Rightarrow> string" where
  "render_path n sels = join ''.'' ([''$'', ''nodes'', n, ''output''] @ map render_sel sels)"

text \<open>A name that can stand in a path: it holds neither the separator nor a bracket.\<close>

definition plain :: "string \<Rightarrow> bool" where
  "plain f = (CHR ''.'' \<notin> set f \<and> CHR ''['' \<notin> set f)"

text \<open>
  What a path selects in a value: the member that the value has under a field name, and
  the element at a position of a sequence. A field that the value does not have, an
  index outside the sequence and an index into something that is not a sequence select
  nothing. A value has the members that it holds itself and those that it inherits.
\<close>

definition field_of :: "Runtime \<Rightarrow> json \<Rightarrow> string \<Rightarrow> json option" where
  "field_of rt v f = (if is_object rt v \<and> has_prop rt v f then Some (get_prop rt v f) else None)"

definition item_of :: "Runtime \<Rightarrow> json \<Rightarrow> nat \<Rightarrow> json option" where
  "item_of rt v i = (if is_array rt v \<and> i < length (items v) then Some (items v ! i) else None)"

fun select_one :: "Runtime \<Rightarrow> json \<Rightarrow> sel \<Rightarrow> json option" where
  "select_one rt v (Field f) = field_of rt v f"
| "select_one rt v (FieldAt f i) =
     (if f = [] then item_of rt v i
      else (case field_of rt v f of None \<Rightarrow> None | Some w \<Rightarrow> item_of rt w i))"

fun select :: "Runtime \<Rightarrow> json \<Rightarrow> sel list \<Rightarrow> json option" where
  "select rt v [] = Some v"
| "select rt v (s # ss) = (case select_one rt v s of None \<Rightarrow> None | Some w \<Rightarrow> select rt w ss)"

text \<open>Path tokens as the expression evaluator reads them: no token is skipped as empty.\<close>

definition jq_names :: "sel list \<Rightarrow> bool" where
  "jq_names sels = (\<forall>s\<in>set sels. plain (sel_name s) \<and> render_sel s \<noteq> [])"

section \<open>Workflow definitions\<close>

record RetryPolicy =
  maxAttempts :: int
  backoffMs :: int

text \<open>
  A node of a workflow. The field \<^verbatim>\<open>id\<close> of the source is \<open>node_id\<close> here; an optional field
  is an \<open>option\<close>.
\<close>

record WorkflowNode =
  node_id :: string
  actionRef :: string
  schemaVersion :: string
  input :: json
  dependsOn :: "string list option"
  timeoutMs :: "int option"
  retry :: "RetryPolicy option"

text \<open>\<^verbatim>\<open>n.dependsOn ?? []\<close>\<close>

definition deps :: "WorkflowNode \<Rightarrow> string list" where
  "deps n = (case dependsOn n of None \<Rightarrow> [] | Some ds \<Rightarrow> ds)"

section \<open>Topological sort\<close>

text \<open>
  The in-degree table \<^verbatim>\<open>indeg\<close> is a plain JavaScript object used as a dictionary: an
  association list of its own properties in the order of their creation. A write to an
  existing key keeps its place and a write to a new key appends it, which is
  \<open>AList.update\<close>.

  The table starts as \<^verbatim>\<open>{}\<close>, so a read of a key that it does not hold finds the member
  that every object inherits under that name, if there is one; such a member is a
  built-in function or object and not a number. What the table holds or a read finds is
  \<^item> \<open>Deg d\<close>, the number \<open>d\<close>, or
  \<^item> \<open>Junk\<close>, something that is not a number: a built-in function or object, the text of one
    followed by \<^verbatim>\<open>1\<close> (which is what adding 1 to it gives), or \<^verbatim>\<open>NaN\<close> (which is what
    decrementing either gives). It is neither \<^verbatim>\<open>=== 0\<close> nor \<^verbatim>\<open>> 0\<close>.
\<close>

datatype degree = Deg int | Junk

type_synonym table = "(string \<times> degree) list"

text \<open>\<^verbatim>\<open>indeg[k]\<close>; \<open>None\<close> is \<^verbatim>\<open>undefined\<close>.\<close>

definition look :: "Runtime \<Rightarrow> table \<Rightarrow> string \<Rightarrow> degree option" where
  "look rt t k =
     (case map_of t k of
        Some d \<Rightarrow> Some d
      | None \<Rightarrow> if inherited rt k then Some Junk else None)"

text \<open>
  \<^verbatim>\<open>indeg[k] = v\<close>. An inherited \<^verbatim>\<open>__proto__\<close> is an accessor: the assignment of a text or
  a number to it is ignored and the table gets no property.
\<close>

definition store :: "Runtime \<Rightarrow> string \<Rightarrow> degree \<Rightarrow> table \<Rightarrow> table" where
  "store rt k v t =
     (if k = ''__proto__'' \<and> inherited rt k \<and> map_of t k = None then t
      else AList.update k v t)"

text \<open>\<^verbatim>\<open>indeg[k] ??= 0\<close>: nothing is written when the read finds a value, own or inherited.\<close>

definition ensure :: "Runtime \<Rightarrow> string \<Rightarrow> table \<Rightarrow> table" where
  "ensure rt k t = (case look rt t k of None \<Rightarrow> store rt k (Deg 0) t | Some d \<Rightarrow> t)"

text \<open>\<^verbatim>\<open>indeg[k] = (indeg[k] ?? 0) + 1\<close>\<close>

definition increment :: "Runtime \<Rightarrow> string \<Rightarrow> table \<Rightarrow> table" where
  "increment rt k t =
     store rt k (case look rt t k of
                   None \<Rightarrow> Deg 1
                 | Some (Deg d) \<Rightarrow> Deg (d + 1)
                 | Some Junk \<Rightarrow> Junk) t"

text \<open>\<^verbatim>\<open>indeg[k]--\<close>; decrementing \<^verbatim>\<open>undefined\<close> stores \<^verbatim>\<open>NaN\<close>.\<close>

definition decrement :: "Runtime \<Rightarrow> string \<Rightarrow> table \<Rightarrow> table" where
  "decrement rt k t =
     store rt k (case look rt t k of
                   None \<Rightarrow> Junk
                 | Some (Deg d) \<Rightarrow> Deg (d - 1)
                 | Some Junk \<Rightarrow> Junk) t"

text \<open>
  \<^verbatim>\<open>Object.entries\<close> enumerates the keys that are array indices first, in ascending numeric
  order, and then the other keys in the order of their creation.
\<close>

definition object_entries :: "(string \<times> 'a) list \<Rightarrow> (string \<times> 'a) list" where
  "object_entries t =
     sort_key (\<lambda>(k, v). the (array_index k)) (filter (\<lambda>(k, v). array_index k \<noteq> None) t)
     @ filter (\<lambda>(k, v). array_index k = None) t"

text \<open>The two loops that fill the table.\<close>

definition enter_ids :: "Runtime \<Rightarrow> WorkflowNode list \<Rightarrow> table \<Rightarrow> table" where
  "enter_ids rt nds t = fold (\<lambda>n. ensure rt (node_id n)) nds t"

definition count_deps :: "Runtime \<Rightarrow> WorkflowNode \<Rightarrow> table \<Rightarrow> table" where
  "count_deps rt n t = fold (\<lambda>dep t. ensure rt dep (increment rt (node_id n) t)) (deps n) t"

definition indegrees :: "Runtime \<Rightarrow> WorkflowNode list \<Rightarrow> table" where
  "indegrees rt nds = fold (count_deps rt) nds (enter_ids rt nds [])"

text \<open>
  The inner loop of the queue loop: every node that lists \<open>cur\<close> loses one from its
  in-degree and joins the queue when that reaches zero.
\<close>

fun release :: "Runtime \<Rightarrow> string \<Rightarrow> WorkflowNode list \<Rightarrow> table \<Rightarrow> string list \<Rightarrow> table \<times> string list" where
  "release rt cur [] t queue = (t, queue)"
| "release rt cur (n # ns) t queue =
     (if cur \<in> set (deps n)
      then release rt cur ns (decrement rt (node_id n) t)
             (if look rt (decrement rt (node_id n) t) (node_id n) = Some (Deg 0)
              then queue @ [node_id n] else queue)
      else release rt cur ns t queue)"

text \<open>The number of entries with a positive in-degree.\<close>

fun positive :: "degree \<Rightarrow> bool" where
  "positive (Deg d) = (d > 0)"
| "positive Junk = False"

definition waiting :: "table \<Rightarrow> nat" where
  "waiting t = length (filter (\<lambda>(k, d). positive d) t)"

lemma waiting_update:
  "map_of t k = Some d \<Longrightarrow>
   waiting (AList.update k d' t) + (if positive d \<and> \<not> positive d' then 1 else 0)
     = waiting t + (if \<not> positive d \<and> positive d' then 1 else 0)"
  by (induction t) (auto simp: waiting_def)

lemma waiting_new:
  "map_of t k = None \<Longrightarrow> waiting (AList.update k d' t) = waiting t + (if positive d' then 1 else 0)"
  by (induction t) (auto simp: waiting_def)

lemma decrement_measure:
  "waiting (decrement rt k t) + (if look rt (decrement rt k t) k = Some (Deg 0) then 1 else 0)
     = waiting t"
proof (cases "map_of t k")
  case None
  then show ?thesis
    using waiting_new [OF None, of Junk]
    by (auto simp: decrement_def look_def store_def update_conv' split: option.splits)
next
  case (Some d)
  show ?thesis
  proof (cases d)
    case (Deg x)
    have a: "(0 < x \<and> \<not> 1 < x) = (x = 1)" "(\<not> 0 < x \<and> 1 < x) = False"
      by auto
    show ?thesis
      using Some Deg waiting_update [OF Some, of "Deg (x - 1)"]
      by (simp add: decrement_def look_def store_def update_conv' a)
  next
    case Junk
    then show ?thesis
      using Some waiting_update [OF Some, of Junk]
      by (auto simp: decrement_def look_def store_def update_conv')
  qed
qed

lemma release_measure:
  "waiting (fst (release rt cur ns t queue)) + length (snd (release rt cur ns t queue))
     = waiting t + length queue"
proof (induction ns arbitrary: t queue)
  case Nil
  then show ?case by simp
next
  case (Cons n ns)
  show ?case
  proof (cases "cur \<in> set (deps n)")
    case False
    then show ?thesis using Cons.IH by simp
  next
    case True
    then show ?thesis
      using Cons.IH decrement_measure [of rt "node_id n" t] by (simp split: if_splits)
  qed
qed

text \<open>
  The queue loop. It ends: each round takes one identifier from the queue, and an
  identifier joins the queue only when an in-degree falls from one to zero.
\<close>

function kahn :: "Runtime \<Rightarrow> WorkflowNode list \<Rightarrow> table \<Rightarrow> string list \<Rightarrow> string list \<Rightarrow> table \<times> string list" where
  "kahn rt nds t [] order = (t, order)"
| "kahn rt nds t (cur # queue) order =
     kahn rt nds (fst (release rt cur nds t queue)) (snd (release rt cur nds t queue)) (order @ [cur])"
  by pat_completeness auto
termination
proof (relation "measure (\<lambda>(rt, nds, t, queue, order). waiting t + length queue)")
  show "wf (measure (\<lambda>(rt, nds, t, queue, order). waiting t + length queue))"
    by simp
next
  fix rt :: Runtime and nds t cur queue order
  show "((rt, nds, fst (release rt cur nds t queue), snd (release rt cur nds t queue), order @ [cur]),
         (rt, nds, t, cur # queue, order))
        \<in> measure (\<lambda>(rt, nds, t, queue, order). waiting t + length queue)"
    using release_measure [of rt cur nds t queue] by simp
qed

record TopoResult =
  order :: "string list"
  cycles :: "string list"

definition topoSort :: "Runtime \<Rightarrow> WorkflowNode list \<Rightarrow> TopoResult" where
  "topoSort rt nds =
     (let indeg = indegrees rt nds;
          queue = map fst (filter (\<lambda>(k, deg). deg = Deg 0) (object_entries indeg));
          (indeg', order) = kahn rt nds indeg queue []
      in \<lparr> order = order,
           cycles = map fst (filter (\<lambda>(k, deg). positive deg) (object_entries indeg')) \<rparr>)"

section \<open>The sequencer on tables of numbers\<close>

text \<open>
  When no identifier of a workflow names a member that objects inherit, the in-degree
  table of \<^verbatim>\<open>topoSort\<close> holds numbers only and no read leaves the table. For the proofs
  about such workflows, this section has the operations of the sequencer on association
  lists of numbers; the lemma \<open>topoSort_ordinary\<close> shows that \<open>topoSort\<close> computes the same
  there.
\<close>

type_synonym table_num = "(string \<times> int) list"

text \<open>\<^verbatim>\<open>indeg[k] ??= 0\<close> on a table of numbers.\<close>

definition ensure_num :: "string \<Rightarrow> table_num \<Rightarrow> table_num" where
  "ensure_num k t = (case map_of t k of None \<Rightarrow> AList.update k 0 t | Some d \<Rightarrow> t)"

text \<open>\<^verbatim>\<open>indeg[k] = (indeg[k] ?? 0) + 1\<close>\<close>

definition increment_num :: "string \<Rightarrow> table_num \<Rightarrow> table_num" where
  "increment_num k t = AList.update k ((case map_of t k of None \<Rightarrow> 0 | Some d \<Rightarrow> d) + 1) t"

text \<open>
  \<^verbatim>\<open>indeg[k]--\<close> on a table of numbers. It is used at the identifiers of nodes, which the
  table holds; at a key that the table does not hold it does nothing.
\<close>

definition decrement_num :: "string \<Rightarrow> table_num \<Rightarrow> table_num" where
  "decrement_num k t = (case map_of t k of None \<Rightarrow> t | Some d \<Rightarrow> AList.update k (d - 1) t)"

text \<open>The two loops that fill the table.\<close>

definition enter_ids_num :: "WorkflowNode list \<Rightarrow> table_num \<Rightarrow> table_num" where
  "enter_ids_num nds t = fold (\<lambda>n. ensure_num (node_id n)) nds t"

definition count_deps_num :: "WorkflowNode \<Rightarrow> table_num \<Rightarrow> table_num" where
  "count_deps_num n t = fold (\<lambda>dep t. ensure_num dep (increment_num (node_id n) t)) (deps n) t"

definition indegrees_num :: "WorkflowNode list \<Rightarrow> table_num" where
  "indegrees_num nds = fold count_deps_num nds (enter_ids_num nds [])"

text \<open>
  The inner loop of the queue loop: every node that lists \<open>cur\<close> loses one from its
  in-degree and joins the queue when that reaches zero.
\<close>

fun release_num :: "string \<Rightarrow> WorkflowNode list \<Rightarrow> table_num \<Rightarrow> string list \<Rightarrow> table_num \<times> string list" where
  "release_num cur [] t queue = (t, queue)"
| "release_num cur (n # ns) t queue =
     (if cur \<in> set (deps n)
      then release_num cur ns (decrement_num (node_id n) t)
             (if map_of (decrement_num (node_id n) t) (node_id n) = Some 0
              then queue @ [node_id n] else queue)
      else release_num cur ns t queue)"

text \<open>The number of entries with a positive in-degree.\<close>

definition waiting_num :: "table_num \<Rightarrow> nat" where
  "waiting_num t = length (filter (\<lambda>(k, d). d > 0) t)"

lemma waiting_num_update:
  "map_of t k = Some d \<Longrightarrow>
   waiting_num (AList.update k (d - 1) t) + (if d = 1 then 1 else 0) = waiting_num t"
  by (induction t) (auto simp: waiting_num_def)

lemma release_num_measure:
  "waiting_num (fst (release_num cur ns t queue)) + length (snd (release_num cur ns t queue))
     = waiting_num t + length queue"
proof (induction ns arbitrary: t queue)
  case Nil
  then show ?case by simp
next
  case (Cons n ns)
  show ?case
  proof (cases "cur \<in> set (deps n)")
    case False
    then show ?thesis using Cons.IH by simp
  next
    case True
    show ?thesis
    proof (cases "map_of t (node_id n)")
      case None
      then show ?thesis using True Cons.IH by (simp add: decrement_num_def)
    next
      case (Some d)
      then have "map_of (decrement_num (node_id n) t) (node_id n) = Some (d - 1)"
        by (simp add: decrement_num_def update_conv')
      then show ?thesis
        using True Some Cons.IH waiting_num_update [OF Some] by (auto simp: decrement_num_def)
    qed
  qed
qed

text \<open>The queue loop on a table of numbers.\<close>

function kahn_num :: "WorkflowNode list \<Rightarrow> table_num \<Rightarrow> string list \<Rightarrow> string list \<Rightarrow> table_num \<times> string list" where
  "kahn_num nds t [] ord = (t, ord)"
| "kahn_num nds t (cur # queue) ord =
     kahn_num nds (fst (release_num cur nds t queue)) (snd (release_num cur nds t queue)) (ord @ [cur])"
  by pat_completeness auto
termination
proof (relation "measure (\<lambda>(nds, t, queue, ord). waiting_num t + length queue)")
  show "wf (measure (\<lambda>(nds, t, queue, ord). waiting_num t + length queue))"
    by simp
next
  fix nds t cur queue ord
  show "((nds, fst (release_num cur nds t queue), snd (release_num cur nds t queue), ord @ [cur]),
         (nds, t, cur # queue, ord))
        \<in> measure (\<lambda>(nds, t, queue, ord). waiting_num t + length queue)"
    using release_num_measure [of cur nds t queue] by simp
qed

definition topoSort_num :: "WorkflowNode list \<Rightarrow> TopoResult" where
  "topoSort_num nds =
     (let indeg = indegrees_num nds;
          queue = map fst (filter (\<lambda>(k, deg). deg = 0) (object_entries indeg));
          (indeg', order) = kahn_num nds indeg queue []
      in \<lparr> order = order,
           cycles = map fst (filter (\<lambda>(k, deg). deg > 0) (object_entries indeg')) \<rparr>)"


section \<open>Vocabulary for the properties of the sequencer\<close>

text \<open>The in-degree that a table of numbers holds for a key, and zero for a key it does not hold.\<close>

definition deg :: "table_num \<Rightarrow> string \<Rightarrow> int" where
  "deg t k = (case map_of t k of None \<Rightarrow> 0 | Some d \<Rightarrow> d)"

text \<open>The keys of a table in the order of their creation.\<close>

definition table_keys :: "table_num \<Rightarrow> string list" where
  "table_keys t = map fst t"

text \<open>What the in-degree of \<open>k\<close> should be when the identifiers in \<open>D\<close> have left the queue: over the
  nodes with that identifier, the entries of \<^verbatim>\<open>dependsOn\<close> less the distinct ones in \<open>D\<close>.\<close>

definition need :: "WorkflowNode list \<Rightarrow> string set \<Rightarrow> string \<Rightarrow> int" where
  "need nds D k =
     (\<Sum>n\<leftarrow>nds. if node_id n = k then int (length (deps n)) - int (card (set (deps n) \<inter> D)) else 0)"

text \<open>How often the inner loop decrements \<open>k\<close> when \<open>cur\<close> leaves the queue.\<close>

definition hits :: "string \<Rightarrow> WorkflowNode list \<Rightarrow> string \<Rightarrow> int" where
  "hits cur ns k = (\<Sum>n\<leftarrow>ns. if node_id n = k \<and> cur \<in> set (deps n) then 1 else 0)"

text \<open>The invariant of the queue loop.\<close>

definition kahn_inv :: "WorkflowNode list \<Rightarrow> table_num \<Rightarrow> string list \<Rightarrow> string list \<Rightarrow> bool" where
  "kahn_inv nds t queue ord \<longleftrightarrow>
     node_id ` set nds \<subseteq> set (table_keys t)
     \<and> (\<forall>k. deg t k = need nds (set ord) k)
     \<and> distinct (ord @ queue)
     \<and> set (ord @ queue) = {k \<in> set (table_keys t). deg t k = 0}
     \<and> (\<forall>i<length ord. \<forall>n\<in>set nds. node_id n = ord ! i \<longrightarrow> set (deps n) \<subseteq> set (take i ord))"

text \<open>Every identifier of the workflow: of a node, or named as a dependency.\<close>

definition all_keys :: "WorkflowNode list \<Rightarrow> string set" where
  "all_keys nds = node_id ` set nds \<union> (\<Union>n\<in>set nds. set (deps n))"

text \<open>The dependency graph: an edge from every dependency to the node that names it.\<close>

definition dep_edges :: "WorkflowNode list \<Rightarrow> (string \<times> string) list" where
  "dep_edges nds = concat (map (\<lambda>n. map (\<lambda>d. (d, node_id n)) (deps n)) nds)"

text \<open>The position of the first occurrence of an element in a list.\<close>

definition pos :: "'a list \<Rightarrow> 'a \<Rightarrow> nat" where
  "pos xs x = length (takeWhile (\<lambda>y. y \<noteq> x) xs)"

text \<open>When a node becomes ready: the number of identifiers emitted up to the last of its
  dependencies, and zero for a node without dependencies.\<close>

definition ready :: "string list \<Rightarrow> WorkflowNode \<Rightarrow> nat" where
  "ready ord n = Max (set (0 # map (\<lambda>d. Suc (pos ord d)) (deps n)))"

text \<open>First in, first out: the node that became ready earlier comes first, and of two nodes
  that became ready together the one declared earlier.\<close>

definition fifo_before :: "WorkflowNode list \<Rightarrow> string list \<Rightarrow> string \<Rightarrow> string \<Rightarrow> bool" where
  "fifo_before nds ord x y \<longleftrightarrow>
     (\<forall>n\<in>set nds. \<forall>m\<in>set nds. node_id n = x \<and> node_id m = y \<longrightarrow>
        ready ord n < ready ord m
        \<or> (ready ord n = ready ord m \<and> pos (map node_id nds) x < pos (map node_id nds) y))"

text \<open>The queue holds nodes in the order in which they became ready.\<close>

definition fifo_inv :: "WorkflowNode list \<Rightarrow> string list \<Rightarrow> string list \<Rightarrow> bool" where
  "fifo_inv nds queue ord \<longleftrightarrow> sorted_wrt (fifo_before nds ord) (ord @ queue)"

text \<open>
  A workflow with ordinary identifiers: no identifier of a node and no name in a
  \<^verbatim>\<open>dependsOn\<close> list is the name of a member that every object inherits.
\<close>

definition ordinary :: "Runtime \<Rightarrow> WorkflowNode list \<Rightarrow> bool" where
  "ordinary rt nds = (\<forall>k\<in>all_keys nds. \<not> inherited rt k)"

text \<open>A table of numbers as an in-degree table.\<close>

definition embed :: "table_num \<Rightarrow> table" where
  "embed t = map (\<lambda>(k, d). (k, Deg d)) t"

text \<open>Every number in the table stands under a key that is not inherited.\<close>

definition sound :: "Runtime \<Rightarrow> table \<Rightarrow> bool" where
  "sound rt t = (\<forall>k d. (k, Deg d) \<in> set t \<longrightarrow> \<not> inherited rt k)"

text \<open>A node with the given identifier and dependencies, for the examples.\<close>

definition plain_node :: "string \<Rightarrow> string list \<Rightarrow> WorkflowNode" where
  "plain_node i ds =
     \<lparr> node_id = i, actionRef = ''plugin.transform.jq'', schemaVersion = ''v1'',
       input = JObj [], dependsOn = (if ds = [] then None else Some ds),
       timeoutMs = None, retry = None \<rparr>"


section \<open>Query substitution\<close>

text \<open>
  \<^verbatim>\<open>json.replace(/\{query\}/g, query)\<close>. Every occurrence of the token is replaced, from left
  to right. The replacement is a string, so JavaScript expands the patterns \<^verbatim>\<open>$$\<close>, \<^verbatim>\<open>$&\<close>,
  \<^verbatim>\<open>$`\<close> and \<^verbatim>\<open>$'\<close> in it (there is no capture group, so \<^verbatim>\<open>$1\<close> stays as it is): \<open>expand\<close> gets
  the matched text and the text before and after the match.
\<close>

fun expand :: "string \<Rightarrow> string \<Rightarrow> string \<Rightarrow> string \<Rightarrow> string" where
  "expand [] matched preceding following = []"
| "expand [c] matched preceding following = [c]"
| "expand (c # d # rest) matched preceding following =
     (if c = CHR ''$'' \<and> d = CHR ''$'' then CHR ''$'' # expand rest matched preceding following
      else if c = CHR ''$'' \<and> d = CHR ''&'' then matched @ expand rest matched preceding following
      else if c = CHR ''$'' \<and> d = CHR 0x60 then preceding @ expand rest matched preceding following
      else if c = CHR ''$'' \<and> d = CHR 0x27 then following @ expand rest matched preceding following
      else c # expand (d # rest) matched preceding following)"

function replace_query :: "string \<Rightarrow> string \<Rightarrow> string \<Rightarrow> string" where
  "replace_query query preceding [] = []"
| "replace_query query preceding (c # cs) =
     (if take 7 (c # cs) = ''{query}''
      then expand query ''{query}'' preceding (drop 7 (c # cs))
             @ replace_query query (preceding @ ''{query}'') (drop 7 (c # cs))
      else c # replace_query query (preceding @ [c]) cs)"
  by pat_completeness auto
termination
  by (relation "measure (\<lambda>(query, preceding, s). length s)") auto

section \<open>What the engine takes from its surroundings\<close>

text \<open>
  The engine reads the clock, serialises and parses JSON, and its handlers reach the
  network and an XML parser. None of this is code of the repository, so a run is
  parameterised by it:
  \<^item> \<open>clock k\<close> is the value of the \<open>k\<close>-th reading of the clock, in milliseconds
    (\<^verbatim>\<open>Date.now()\<close> and \<^verbatim>\<open>new Date()\<close>), counting from zero;
  \<^item> \<open>json_stringify\<close> and \<open>json_parse\<close> are \<^verbatim>\<open>JSON.stringify\<close> and \<^verbatim>\<open>JSON.parse\<close>, the latter
    giving the message of its \<^verbatim>\<open>SyntaxError\<close> on the left;
  \<^item> \<open>fetch k input\<close> is what the HTTP request of the \<open>k\<close>-th handler invocation of the
    run gives for a resolved input: the decoded response, or the message of the failure;
  \<^item> \<open>xml_parse\<close> is the XML parser;
  \<^item> \<open>runtime\<close> holds the built-in objects that values inherit from;
  \<^item> \<open>invoke h k node input\<close> is what calling the built-in function \<open>h\<close> gives when the engine
    calls it as a handler, \<^verbatim>\<open>h(node, input)\<close>, in the \<open>k\<close>-th handler invocation of the run.
\<close>

record World =
  clock :: "nat \<Rightarrow> int"
  json_stringify :: "json \<Rightarrow> string"
  json_parse :: "string \<Rightarrow> string + json"
  fetch :: "nat \<Rightarrow> json \<Rightarrow> string + json"
  xml_parse :: "string \<Rightarrow> string + json"
  runtime :: Runtime
  invoke :: "string \<Rightarrow> nat \<Rightarrow> WorkflowNode \<Rightarrow> json \<Rightarrow> string + json"

definition substituteQuery :: "World \<Rightarrow> json \<Rightarrow> string \<Rightarrow> string + json" where
  "substituteQuery w inp query = json_parse w (replace_query query [] (json_stringify w inp))"

section \<open>Action handlers\<close>

text \<open>
  A handler gets the number of the invocation within the run, the node and the resolved
  input, and gives an output or the message of its failure.
\<close>

type_synonym ActionHandler = "nat \<Rightarrow> WorkflowNode \<Rightarrow> json \<Rightarrow> string + json"

text \<open>
  \<^verbatim>\<open>input.key\<close> as the handlers read it: reading a property of \<^verbatim>\<open>undefined\<close> or \<^verbatim>\<open>null\<close> throws
  a \<^verbatim>\<open>TypeError\<close>; every other value answers with its member, own or inherited, or with
  \<^verbatim>\<open>undefined\<close>.
\<close>

definition read_prop :: "Runtime \<Rightarrow> json \<Rightarrow> string \<Rightarrow> string + json" where
  "read_prop rt v k =
     (case v of
        JUndefined \<Rightarrow> Inl (''Cannot read properties of undefined (reading '' @ [CHR 0x27] @ k @ [CHR 0x27] @ '')'')
      | JNull \<Rightarrow> Inl (''Cannot read properties of null (reading '' @ [CHR 0x27] @ k @ [CHR 0x27] @ '')'')
      | _ \<Rightarrow> Inr (get_prop rt v k))"

text \<open>\<^verbatim>\<open>!v\<close>\<close>

fun falsy :: "json \<Rightarrow> bool" where
  "falsy JUndefined = True"
| "falsy JNull = True"
| "falsy (JBool b) = (\<not> b)"
| "falsy (JNum n) = (n = 0)"
| "falsy (JStr s) = (s = [])"
| "falsy v = False"

definition httpGetHandler :: "World \<Rightarrow> ActionHandler" where
  "httpGetHandler w k node inp =
     (case read_prop (runtime w) inp ''url'' of
        Inl e \<Rightarrow> Inl e
      | Inr url \<Rightarrow>
          if falsy url then Inl ([CHR 0x27] @ ''url'' @ [CHR 0x27] @ '' must be a non-empty string'')
          else fetch w k inp)"

definition xml2jsonHandler :: "World \<Rightarrow> ActionHandler" where
  "xml2jsonHandler w k node inp =
     (case read_prop (runtime w) inp ''xml'' of
        Inl e \<Rightarrow> Inl e
      | Inr (JStr xml) \<Rightarrow>
          if xml = [] then Inl ([CHR 0x27] @ ''xml'' @ [CHR 0x27] @ '' must be a non-empty string'')
          else (case xml_parse w xml of
                  Inl e \<Rightarrow> Inl e
                | Inr result \<Rightarrow> Inr (JObj [(''json'', result)]))
      | Inr _ \<Rightarrow> Inl ([CHR 0x27] @ ''xml'' @ [CHR 0x27] @ '' must be a non-empty string''))"

definition jqHandler :: "World \<Rightarrow> ActionHandler" where
  "jqHandler w k node inp =
     (case read_prop (runtime w) inp ''data'' of
        Inl e \<Rightarrow> Inl e
      | Inr data \<Rightarrow>
          (case read_prop (runtime w) inp ''expression'' of
             Inl e \<Rightarrow> Inl e
           | Inr (JStr expression) \<Rightarrow>
               (case jqEval (runtime w) data expression of
                  Inl e \<Rightarrow> Inl e
                | Inr result \<Rightarrow> Inr (JObj [(''result'', result)]))
           | Inr _ \<Rightarrow> Inl ([CHR 0x27] @ ''expression'' @ [CHR 0x27] @ '' must be string'')))"

text \<open>
  \<^verbatim>\<open>handler(node, resolvedInput)\<close> for a value that the lookup in the table of handlers
  found among the inherited members: a built-in function is called, and calling anything
  else throws a \<^verbatim>\<open>TypeError\<close>.
\<close>

definition call_value :: "World \<Rightarrow> json \<Rightarrow> ActionHandler" where
  "call_value w v k node inp =
     (case v of
        JHost h \<Rightarrow> if host_callable (runtime w) h then invoke w h k node inp
                   else Inl ''handler is not a function''
      | _ \<Rightarrow> Inl ''handler is not a function'')"

text \<open>
  \<^verbatim>\<open>ACTION_HANDLERS[ref]\<close>, with \<open>None\<close> for a value that fails the test \<^verbatim>\<open>if (!handler)\<close>. The table
  is a plain object with three own properties, so the lookup of any other name finds the
  member that objects inherit under that name, if there is one.
\<close>

definition ACTION_HANDLERS :: "World \<Rightarrow> string \<Rightarrow> ActionHandler option" where
  "ACTION_HANDLERS w ref =
     (if ref = ''plugin.http.get'' then Some (httpGetHandler w)
      else if ref = ''plugin.transform.xml2json'' then Some (xml2jsonHandler w)
      else if ref = ''plugin.transform.jq'' then Some (jqHandler w)
      else if inherited (runtime w) ref
        \<and> \<not> falsy (host_get (runtime w) object_prototype (JObj []) ref)
      then Some (call_value w (host_get (runtime w) object_prototype (JObj []) ref))
      else None)"

section \<open>Workflow execution\<close>

record Principal =
  principal_id :: string
  permissions :: "string list"

record Termination =
  maxNodes :: int
  maxRuntimeMs :: int
  warnAtPct :: int

text \<open>The field \<^verbatim>\<open>termination\<close> of the metadata is \<open>termination_limits\<close> here.\<close>

record WorkflowMetadata =
  name :: string
  description :: string
  risk :: string
  principal :: Principal
  termination_limits :: Termination

record WorkflowDefinition =
  kind :: string
  version :: string
  metadata :: WorkflowMetadata
  nodes :: "WorkflowNode list"

datatype LogLevel = Info | Success | Error | Running

datatype NodeStatus = NodeRunning | NodeSuccess | NodeError

text \<open>
  The records of the report. Two interfaces of the source have a field \<^verbatim>\<open>nodeId\<close> and two
  have a field \<^verbatim>\<open>error\<close>; the ones of a log entry and of a node execution carry a suffix.
\<close>

record LogEntry =
  timestamp :: string
  level :: LogLevel
  message :: string
  nodeId_log :: "string option"

record NodeExecution =
  nodeId :: string
  action :: string
  status :: NodeStatus
  durationMs :: int
  inputData :: "json option"
  outputData :: "json option"
  error_node :: "string option"

record ExecutionResult =
  success :: bool
  logs :: "LogEntry list"
  nodeExecutions :: "NodeExecution list"
  executionTimeMs :: int
  error :: "string option"

text \<open>
  \<^verbatim>\<open>new Date().toISOString().split("T")[1].split(".")[0]\<close>: the time of day of a clock
  reading, in UTC, as \<^verbatim>\<open>HH:MM:SS\<close>.
\<close>

definition two_digits :: "nat \<Rightarrow> string" where
  "two_digits d = [digit_char (d div 10), digit_char d]"

definition time_of_day :: "int \<Rightarrow> string" where
  "time_of_day ms =
     (let s = nat ((ms div 1000) mod 86400)
      in two_digits (s div 3600) @ '':'' @ two_digits ((s div 60) mod 60) @ '':'' @ two_digits (s mod 60))"

text \<open>
  What the engine does to the world besides reading the clock: it invokes the handler
  of a node and it sleeps.
\<close>

datatype Effect = Invoked string | Slept int

text \<open>
  The state of a run: the local variables \<^verbatim>\<open>logs\<close>, \<^verbatim>\<open>nodeExecutions\<close> and \<^verbatim>\<open>context\<close> of
  \<^verbatim>\<open>executeWorkflow\<close>, the number of clock readings and of handler invocations so far, and
  the effects so far.
\<close>

record Run =
  run_logs :: "LogEntry list"
  run_nodeExecutions :: "NodeExecution list"
  run_context :: ExecutionContext
  reads :: nat
  calls :: nat
  effects :: "Effect list"

text \<open>\<^verbatim>\<open>logs.push({ timestamp: timestamp(), level, message, nodeId })\<close>\<close>

definition push_log :: "World \<Rightarrow> LogLevel \<Rightarrow> string \<Rightarrow> string option \<Rightarrow> Run \<Rightarrow> Run" where
  "push_log w lv msg nid r =
     r\<lparr> run_logs := run_logs r @
            [\<lparr> timestamp = time_of_day (clock w (reads r)), level = lv, message = msg,
               nodeId_log = nid \<rparr>],
        reads := Suc (reads r) \<rparr>"

text \<open>\<^verbatim>\<open>nodeExecutions.push({ nodeId, action, status: "error", durationMs: 0, error })\<close>\<close>

definition push_error :: "string \<Rightarrow> WorkflowNode \<Rightarrow> string \<Rightarrow> Run \<Rightarrow> Run" where
  "push_error nid node err r =
     r\<lparr> run_nodeExecutions := run_nodeExecutions r @
            [\<lparr> nodeId = nid, action = actionRef node, status = NodeError, durationMs = 0,
               inputData = None, outputData = None, error_node = Some err \<rparr>] \<rparr>"

text \<open>
  What a call of \<^verbatim>\<open>executeWorkflow\<close> ends in: the report it returns, or the message of an
  exception that leaves it.
\<close>

datatype Outcome = Returned ExecutionResult | Threw string

text \<open>
  \<^verbatim>\<open>return { success: false, logs, nodeExecutions, executionTimeMs: Date.now() - startTime,
  error }\<close>
\<close>

definition return_failure :: "World \<Rightarrow> int \<Rightarrow> string \<Rightarrow> Run \<Rightarrow> Outcome \<times> Run" where
  "return_failure w startTime err r =
     (Returned \<lparr> success = False, logs = run_logs r, nodeExecutions = run_nodeExecutions r,
                 executionTimeMs = clock w (reads r) - startTime, error = Some err \<rparr>,
      r\<lparr> reads := Suc (reads r) \<rparr>)"

text \<open>
  The attempt loop, from \<open>attempt\<close> on. It gives \<^verbatim>\<open>succeeded\<close>, \<^verbatim>\<open>lastError\<close> and the state
  after the loop. The handler is invoked and awaited, and only then is the clock read
  again and the duration compared with the timeout of the node; a duration over a
  timeout that is not zero throws inside the \<^verbatim>\<open>try\<close>, so it takes the same \<^verbatim>\<open>catch\<close> as a
  failure of the handler.
\<close>

definition timed_out :: "WorkflowNode \<Rightarrow> int \<Rightarrow> bool" where
  "timed_out node dur =
     (case timeoutMs node of None \<Rightarrow> False | Some t \<Rightarrow> t \<noteq> 0 \<and> dur > t)"

definition timeout_message :: "WorkflowNode \<Rightarrow> int \<Rightarrow> string" where
  "timeout_message node dur =
     ''Timeout exceeded: '' @ show_int dur @ ''ms > ''
       @ show_int (case timeoutMs node of None \<Rightarrow> 0 | Some t \<Rightarrow> t) @ ''ms''"

text \<open>The body of the \<^verbatim>\<open>try\<close>: the message thrown, or the state after a successful attempt.\<close>

definition try_attempt :: "World \<Rightarrow> ActionHandler \<Rightarrow> WorkflowNode \<Rightarrow> string \<Rightarrow> json \<Rightarrow> Run \<Rightarrow> (string + unit) \<times> Run" where
  "try_attempt w handler node nid resolvedInput r =
     (let nodeStart = clock w (reads r);
          r1 = r\<lparr> reads := Suc (reads r), calls := Suc (calls r),
                  effects := effects r @ [Invoked nid] \<rparr>
      in case handler (calls r) node resolvedInput of
           Inl e \<Rightarrow> (Inl e, r1)
         | Inr output \<Rightarrow>
             (let dur = clock w (reads r1) - nodeStart;
                  r2 = r1\<lparr> reads := Suc (reads r1) \<rparr>
              in if timed_out node dur
                 then (Inl (timeout_message node dur), r2)
                 else (Inr (),
                       push_log w Success
                         (''Completed '' @ nid @ '' in '' @ show_int dur @ ''ms'') (Some nid)
                         (r2\<lparr> run_context := AList.update nid output (run_context r2),
                              run_nodeExecutions := run_nodeExecutions r2 @
                                [\<lparr> nodeId = nid, action = actionRef node, status = NodeSuccess,
                                   durationMs = dur, inputData = Some resolvedInput,
                                   outputData = Some output, error_node = None \<rparr>] \<rparr>))))"

text \<open>The \<^verbatim>\<open>catch\<close>: the retry entry and the sleep, when attempts remain.\<close>

definition after_failure :: "World \<Rightarrow> string \<Rightarrow> int \<Rightarrow> int \<Rightarrow> int \<Rightarrow> string \<Rightarrow> Run \<Rightarrow> Run" where
  "after_failure w nid maxA backoff attempt lastError r =
     (if attempt < maxA
      then (let r1 = push_log w Info
                       (''Retrying '' @ nid @ '' (attempt '' @ show_int attempt @ ''/''
                          @ show_int maxA @ ''): '' @ lastError) (Some nid) r
            in r1\<lparr> effects := effects r1 @ [Slept backoff] \<rparr>)
      else r)"

function attempt_loop ::
  "World \<Rightarrow> ActionHandler \<Rightarrow> WorkflowNode \<Rightarrow> string \<Rightarrow> json \<Rightarrow> int \<Rightarrow> int \<Rightarrow> int \<Rightarrow> string \<Rightarrow> Run
     \<Rightarrow> bool \<times> string \<times> Run" where
  "attempt_loop w handler node nid resolvedInput maxA backoff attempt lastError r =
     (if attempt \<le> maxA
      then (case try_attempt w handler node nid resolvedInput r of
              (Inr u, r') \<Rightarrow> (True, lastError, r')
            | (Inl e, r') \<Rightarrow>
                attempt_loop w handler node nid resolvedInput maxA backoff (attempt + 1) e
                  (after_failure w nid maxA backoff attempt e r'))
      else (False, lastError, r))"
  by pat_completeness auto
termination
  by (relation "measure (\<lambda>(w, handler, node, nid, resolvedInput, maxA, backoff, attempt, lastError, r).
        nat (maxA + 1 - attempt))") auto

text \<open>
  The body of the loop over the order, for one identifier: the run goes on with a new
  state, or \<^verbatim>\<open>executeWorkflow\<close> ends here. \<^verbatim>\<open>substituteQuery\<close> is called outside the \<^verbatim>\<open>try\<close>
  that surrounds \<^verbatim>\<open>resolveInput\<close>, so a \<^verbatim>\<open>SyntaxError\<close> of \<^verbatim>\<open>JSON.parse\<close> leaves the function.
\<close>

datatype Step = Continue Run | Stop Outcome Run

definition run_node ::
  "World \<Rightarrow> string \<Rightarrow> int \<Rightarrow> (string \<rightharpoonup> WorkflowNode) \<Rightarrow> string \<Rightarrow> Run \<Rightarrow> Step" where
  "run_node w query startTime nodeMap nid r =
     (case nodeMap nid of
        None \<Rightarrow> Continue r
      | Some node \<Rightarrow>
          (case ACTION_HANDLERS w (actionRef node) of
             None \<Rightarrow>
               (let err = ''Action not implemented: '' @ actionRef node;
                    (out, r') = return_failure w startTime err
                                  (push_error nid node err (push_log w Error err (Some nid) r))
                in Stop out r')
           | Some handler \<Rightarrow>
               (let r1 = push_log w Running
                           (''Starting '' @ nid @ '' ('' @ actionRef node @ '')'') (Some nid) r
                in case substituteQuery w (input node) query of
                     Inl e \<Rightarrow> Stop (Threw e) r1
                   | Inr substituted \<Rightarrow>
                       (case resolveInput (runtime w) substituted (run_context r1) of
                          Inl err \<Rightarrow>
                            (let (out, r') = return_failure w startTime err
                                   (push_error nid node err
                                      (push_log w Error
                                         (''Input resolution failed for '' @ nid @ '': '' @ err)
                                         (Some nid) r1))
                             in Stop out r')
                        | Inr resolvedInput \<Rightarrow>
                            (let maxA = (case retry node of None \<Rightarrow> 1 | Some p \<Rightarrow> maxAttempts p);
                                 backoff = (case retry node of None \<Rightarrow> 0 | Some p \<Rightarrow> backoffMs p);
                                 (succeeded, lastError, r2) =
                                   attempt_loop w handler node nid resolvedInput maxA backoff 1 [] r1
                             in if succeeded then Continue r2
                                else (let (out, r') = return_failure w startTime lastError
                                            (push_error nid node lastError
                                               (push_log w Error
                                                  (''Failed '' @ nid @ '': '' @ lastError) (Some nid) r2))
                                      in Stop out r'))))))"

fun run_nodes ::
  "World \<Rightarrow> string \<Rightarrow> int \<Rightarrow> (string \<rightharpoonup> WorkflowNode) \<Rightarrow> string list \<Rightarrow> Run \<Rightarrow> Step" where
  "run_nodes w query startTime nodeMap [] r = Continue r"
| "run_nodes w query startTime nodeMap (nid # rest) r =
     (case run_node w query startTime nodeMap nid r of
        Continue r' \<Rightarrow> run_nodes w query startTime nodeMap rest r'
      | Stop out r' \<Rightarrow> Stop out r')"

text \<open>
  \<^verbatim>\<open>Object.fromEntries(workflow.nodes.map((n) => [n.id, n]))\<close>: a later node with the same
  identifier replaces an earlier one. The loop reads \<^verbatim>\<open>nodeMap[nodeId]\<close> and writes
  \<^verbatim>\<open>context[nodeId]\<close> for the identifiers in the order only, and these never name an
  inherited member (lemma \<open>order_not_inherited\<close>): the read finds a node of the workflow
  or \<^verbatim>\<open>undefined\<close>, and the write makes an own property of the context.
\<close>

definition node_map :: "WorkflowNode list \<Rightarrow> (string \<rightharpoonup> WorkflowNode)" where
  "node_map nds = map_of (rev (map (\<lambda>n. (node_id n, n)) nds))"

text \<open>
  \<^verbatim>\<open>executeWorkflow\<close>: what the call ends in, and the effects of the run. The first reading
  of the clock is \<^verbatim>\<open>startTime\<close>.
\<close>

definition executeWorkflow :: "World \<Rightarrow> WorkflowDefinition \<Rightarrow> string \<Rightarrow> Outcome \<times> Effect list" where
  "executeWorkflow w workflow query =
     (let startTime = clock w 0;
          r0 = \<lparr> run_logs = [], run_nodeExecutions = [], run_context = [], reads = 1, calls = 0,
                 effects = [] \<rparr>;
          r1 = push_log w Info (''Starting workflow: '' @ name (metadata workflow)) None r0;
          r2 = push_log w Info (''Query: '' @ query) None r1;
          sorted = topoSort (runtime w) (nodes workflow)
      in if cycles sorted \<noteq> []
         then (let (out, r') = return_failure w startTime
                                 (''Cycle detected: '' @ join '', '' (cycles sorted)) r2
               in (out, effects r'))
         else (case run_nodes w query startTime (node_map (nodes workflow)) (order sorted) r2 of
                 Stop out r' \<Rightarrow> (out, effects r')
               | Continue r3 \<Rightarrow>
                   (let elapsed = clock w (reads r3) - startTime;
                        r4 = push_log w Success
                               (''Workflow completed in '' @ show_int elapsed @ ''ms'') None
                               (r3\<lparr> reads := Suc (reads r3) \<rparr>)
                    in (Returned \<lparr> success = True, logs = run_logs r4,
                                    nodeExecutions = run_nodeExecutions r4,
                                    executionTimeMs = elapsed, error = None \<rparr>,
                        effects r4))))"


section \<open>Vocabulary for the properties of the execution loop\<close>

text \<open>The state of the run that a step of the loop leaves.\<close>

fun step_run :: "Step \<Rightarrow> Run" where
  "step_run (Continue r) = r"
| "step_run (Stop out r) = r"

text \<open>The report of a call that returned.\<close>

fun report :: "Outcome \<Rightarrow> ExecutionResult option" where
  "report (Returned res) = Some res"
| "report (Threw e) = None"

text \<open>The report with which a step of the loop ended the run.\<close>

fun stopped :: "Step \<Rightarrow> ExecutionResult option" where
  "stopped (Stop (Returned res) r) = Some res"
| "stopped s = None"

text \<open>The state after the entry that announces a node.\<close>

definition starting :: "World \<Rightarrow> string \<Rightarrow> WorkflowNode \<Rightarrow> Run \<Rightarrow> Run" where
  "starting w nid node r =
     push_log w Running (''Starting '' @ nid @ '' ('' @ actionRef node @ '')'') (Some nid) r"

text \<open>How the body of the loop ends the run at a node: the error entry, the error record
  with a duration of zero, and the report with the same message.\<close>

definition failure_report :: "World \<Rightarrow> int \<Rightarrow> string \<Rightarrow> WorkflowNode \<Rightarrow> string \<Rightarrow> string \<Rightarrow> Run \<Rightarrow> Step" where
  "failure_report w startTime nid node msg err r =
     Stop (Returned \<lparr> success = False,
             logs = run_logs r @
               [\<lparr> timestamp = time_of_day (clock w (reads r)), level = Error, message = msg,
                  nodeId_log = Some nid \<rparr>],
             nodeExecutions = run_nodeExecutions r @
               [\<lparr> nodeId = nid, action = actionRef node, status = NodeError, durationMs = 0,
                  inputData = None, outputData = None, error_node = Some err \<rparr>],
             executionTimeMs = clock w (Suc (reads r)) - startTime, error = Some err \<rparr>)
       (r\<lparr> run_logs := run_logs r @
               [\<lparr> timestamp = time_of_day (clock w (reads r)), level = Error, message = msg,
                  nodeId_log = Some nid \<rparr>],
           run_nodeExecutions := run_nodeExecutions r @
               [\<lparr> nodeId = nid, action = actionRef node, status = NodeError, durationMs = 0,
                  inputData = None, outputData = None, error_node = Some err \<rparr>],
           reads := Suc (Suc (reads r)) \<rparr>)"


section \<open>Vocabulary for the comparison of two runs\<close>







section \<open>A sample of the surroundings, for the examples\<close>

text \<open>
  The examples need JSON on a few texts only. \<open>sample_stringify\<close> and \<open>sample_parse\<close>
  are \<^verbatim>\<open>JSON.stringify\<close> and \<^verbatim>\<open>JSON.parse\<close> on the values and texts listed (the message of the
  \<^verbatim>\<open>SyntaxError\<close> depends on the engine); what they give elsewhere is never used. The
  theorems about the engine hold for every world.
\<close>

definition sample_stringify :: "json \<Rightarrow> string" where
  \<open>sample_stringify v =
     (if v = JObj [] then ''{}''
      else if v = JObj [(''url'', JStr ''https://example.org/?q={query}'')]
        then ''{"url":"https://example.org/?q={query}"}''
      else ''null'')\<close>

definition sample_parse :: "string \<Rightarrow> string + json" where
  \<open>sample_parse s =
     (if s = ''{}'' then Inr (JObj [])
      else if s = ''{"url":"https://example.org/?q=cats"}''
        then Inr (JObj [(''url'', JStr ''https://example.org/?q=cats'')])
      else if s = ''null'' then Inr JNull
      else Inl ''Unexpected string in JSON'')\<close>

text \<open>
  A sample runtime: \<^verbatim>\<open>Object.prototype\<close> has the members that the language standard gives it,
  and the examples need no others, so here every value inherits these and only these.
  Reading \<^verbatim>\<open>__proto__\<close> gives the prototype of the value that was read; reading any other
  member gives the built-in function of that name. The two prototypes are objects,
  \<^verbatim>\<open>Array.prototype\<close> is an array, and everything else is a function.
\<close>

definition object_prototype_names :: "string list" where
  "object_prototype_names =
     [''constructor'', ''__defineGetter__'', ''__defineSetter__'', ''hasOwnProperty'',
      ''__lookupGetter__'', ''__lookupSetter__'', ''isPrototypeOf'', ''propertyIsEnumerable'',
      ''toString'', ''valueOf'', ''__proto__'', ''toLocaleString'']"

fun prototype_of :: "json \<Rightarrow> json" where
  "prototype_of (JObj kvs) = JHost ''Object.prototype''"
| "prototype_of (JObjProto p kvs) = p"
| "prototype_of (JArr xs) = JHost ''Array.prototype''"
| "prototype_of (JStr s) = JHost ''String.prototype''"
| "prototype_of (JNum n) = JHost ''Number.prototype''"
| "prototype_of (JBool b) = JHost ''Boolean.prototype''"
| "prototype_of (JHost h) =
     (if h = ''Object.prototype'' then JNull
      else if h \<in> set [''Array.prototype'', ''String.prototype'', ''Number.prototype'',
                         ''Boolean.prototype'', ''Function.prototype'']
      then JHost ''Object.prototype'' else JHost ''Function.prototype'')"
| "prototype_of v = JNull"

definition sample_runtime :: Runtime where
  "sample_runtime =
     \<lparr> host_callable = (\<lambda>h. h \<notin> set [''Object.prototype'', ''Array.prototype'',
                                       ''String.prototype'', ''Number.prototype'',
                                       ''Boolean.prototype'']),
       host_array = (\<lambda>h. h = ''Array.prototype''),
       host_has = (\<lambda>h k. k \<in> set object_prototype_names),
       host_get = (\<lambda>h v k. if k = ''__proto__'' then prototype_of v
                            else JHost (''Object.prototype.'' @ k)) \<rparr>"

text \<open>
  Called as a handler, with no receiver, \<^verbatim>\<open>Object.prototype.toString\<close> answers
  \<^verbatim>\<open>[object Undefined]\<close>; the other methods of the prototype need a receiver.
\<close>

definition sample_invoke :: "string \<Rightarrow> nat \<Rightarrow> WorkflowNode \<Rightarrow> json \<Rightarrow> string + json" where
  "sample_invoke h k node inp =
     (if h = ''Object.prototype.toString'' then Inr (JStr ''[object Undefined]'')
      else Inl ''Cannot convert undefined or null to object'')"

definition sample_world :: "(nat \<Rightarrow> int) \<Rightarrow> (nat \<Rightarrow> json \<Rightarrow> string + json) \<Rightarrow> World" where
  "sample_world ticks net =
     \<lparr> clock = ticks, json_stringify = sample_stringify, json_parse = sample_parse,
       fetch = net, xml_parse = (\<lambda>s. Inl ''not an XML document''),
       runtime = sample_runtime, invoke = sample_invoke \<rparr>"

text \<open>A network that fails the first \<open>k\<close> invocations of a run and answers from then on.\<close>

definition flaky :: "nat \<Rightarrow> nat \<Rightarrow> json \<Rightarrow> string + json" where
  "flaky k i inp =
     (if i < k then Inl ''fetch failed''
      else Inr (JObj [(''status'', JNum 200), (''body'', JStr ''ok'')]))"

definition sample_workflow :: "WorkflowNode list \<Rightarrow> WorkflowDefinition" where
  "sample_workflow nds =
     \<lparr> kind = ''process'', version = ''1.0'',
       metadata = \<lparr> name = ''sample'', description = '''', risk = ''low'',
                    principal = \<lparr> principal_id = ''system:demo'', permissions = [] \<rparr>,
                    termination_limits = \<lparr> maxNodes = 10, maxRuntimeMs = 60000, warnAtPct = 80 \<rparr> \<rparr>,
       nodes = nds \<rparr>"

text \<open>An HTTP node whose template holds the query placeholder.\<close>

definition fetch_node :: "string \<Rightarrow> int option \<Rightarrow> RetryPolicy option \<Rightarrow> WorkflowNode" where
  "fetch_node i t p =
     \<lparr> node_id = i, actionRef = ''plugin.http.get'', schemaVersion = ''v1'',
       input = JObj [(''url'', JStr ''https://example.org/?q={query}'')], dependsOn = None,
       timeoutMs = t, retry = p \<rparr>"

text \<open>Example workflows for the sequencer.\<close>

definition wf4 :: "WorkflowNode list" where
  "wf4 = [plain_node ''fetch'' [], plain_node ''meta'' [],
          plain_node ''join'' [''fetch'', ''meta''], plain_node ''report'' [''join'', ''fetch'']]"

definition wf_repeat :: "WorkflowNode list" where
  "wf_repeat = [plain_node ''b'' [], plain_node ''a'' [''b'', ''b'']]"

definition wf_numbered :: "WorkflowNode list" where
  "wf_numbered = [plain_node ''2'' [], plain_node ''1'' []]"

text \<open>Example runs: an empty state, worlds that fail the first invocations, and workflows.\<close>

definition empty_run :: Run where
  "empty_run = \<lparr> run_logs = [], run_nodeExecutions = [], run_context = [], reads = 0, calls = 0,
                   effects = [] \<rparr>"

definition w_flaky :: "nat \<Rightarrow> World" where
  "w_flaky k = sample_world (\<lambda>i. 1000 + 7 * int i) (flaky k)"


definition cats_input :: json where
  "cats_input = JObj [(''url'', JStr ''https://example.org/?q=cats'')]"

definition ok_output :: json where
  "ok_output = JObj [(''status'', JNum 200), (''body'', JStr ''ok'')]"

definition wf_quote :: WorkflowDefinition where
  "wf_quote = sample_workflow [fetch_node ''a'' None None]"

definition wf_ghost :: "WorkflowNode list" where
  "wf_ghost = [plain_node ''a'' [''ghost'']]"

definition wf_cycle :: "WorkflowNode list" where
  "wf_cycle = [plain_node ''a'' [''b''], plain_node ''b'' [''a''], plain_node ''c'' []]"

text \<open>Workflows whose identifiers name members that every object inherits.\<close>

definition wf_constructor :: "WorkflowNode list" where
  "wf_constructor = [plain_node ''constructor'' [''constructor'']]"

definition wf_inherited :: "WorkflowNode list" where
  "wf_inherited = [plain_node ''a'' [''constructor'']]"

definition wf_lone :: "WorkflowNode list" where
  "wf_lone = [plain_node ''constructor'' []]"

text \<open>A node whose action is the name of an inherited member, and an input template with
  the key \<^verbatim>\<open>__proto__\<close>.\<close>

definition wf_toString :: WorkflowDefinition where
  "wf_toString = sample_workflow
     [\<lparr> node_id = ''a'', actionRef = ''toString'', schemaVersion = ''v1'', input = JObj [],
        dependsOn = None, timeoutMs = None, retry = None \<rparr>]"

definition proto_input :: json where
  "proto_input = JObj [(''__proto__'', JObj [(''a'', JNum 1)]), (''b'', JNum 2)]"

section \<open>Facts about numerals and strings\<close>

declare show_nat.simps [simp del]

lemma is_digit_iff: "is_digit c \<longleftrightarrow> c \<in> set ''0123456789''"
  by (auto simp: is_digit_def digit_val_def)

lemma digit_val_nth: "k < 10 \<Longrightarrow> digit_val (''0123456789'' ! k) = Some k"
proof -
  assume "k < 10"
  then have "k = 0 \<or> k = 1 \<or> k = 2 \<or> k = 3 \<or> k = 4 \<or> k = 5 \<or> k = 6 \<or> k = 7 \<or> k = 8 \<or> k = 9"
    by arith
  then show ?thesis
    by (elim disjE) (simp_all add: digit_val_def)
qed

lemma digit_val_digit_char: "digit_val (digit_char d) = Some (d mod 10)"
  by (simp add: digit_char_def digit_val_nth)

lemma is_digit_digit_char: "is_digit (digit_char d)"
  by (simp add: is_digit_def digit_val_digit_char)

lemma show_nat_digits: "c \<in> set (show_nat n) \<Longrightarrow> is_digit c"
proof (induction n arbitrary: c rule: show_nat.induct)
  case (1 n)
  then show ?case
    by (subst (asm) (2) show_nat.simps) (auto simp: is_digit_digit_char split: if_splits)
qed

lemma show_nat_nonempty: "show_nat n \<noteq> []"
  by (subst show_nat.simps) simp

lemma digits_val_append: "digits_val acc (xs @ ys) = digits_val (digits_val acc xs) ys"
  by (induction xs arbitrary: acc) auto

lemma digits_val_show_nat: "digits_val 0 (show_nat n) = n"
proof (induction n rule: show_nat.induct)
  case (1 n)
  show ?case
  proof (cases "n < 10")
    case True
    then show ?thesis
      by (subst show_nat.simps) (simp add: digit_val_digit_char)
  next
    case False
    with 1 have "digits_val 0 (show_nat (n div 10)) = n div 10" by simp
    with False show ?thesis
      by (subst show_nat.simps) (simp add: digits_val_append digit_val_digit_char)
  qed
qed

lemma takeWhile_all: "\<forall>x\<in>set xs. P x \<Longrightarrow> takeWhile P xs = xs"
  by (induction xs) auto

lemma not_space_digit: "is_digit c \<Longrightarrow> \<not> is_space c"
  by (auto simp: is_digit_iff is_space_def)

lemma parseInt_show_nat: "parseInt (show_nat n) = Some (int n)"
proof -
  obtain c cs where s: "show_nat n = c # cs"
    using show_nat_nonempty by (cases "show_nat n") auto
  have d: "\<forall>x\<in>set (c # cs). is_digit x"
    using show_nat_digits s by metis
  then have c: "is_digit c" by simp
  have 1: "\<not> is_space c"
    using c by (rule not_space_digit)
  have 2: "c \<noteq> CHR ''-''" "c \<noteq> CHR ''+''"
    using c by (auto simp: is_digit_iff)
  have 3: "takeWhile is_digit cs = cs"
    using d by (simp add: takeWhile_all)
  have 4: "digits_val (the (digit_val c)) cs = n"
    using digits_val_show_nat [of n] s by simp
  show ?thesis
    using c 1 2 4 by (simp add: parseInt_def s Let_def 3)
qed

lemma split_on_nonempty: "split_on c s \<noteq> []"
  by (induction s) (auto split: list.splits)

lemma split_on_notin: "c \<notin> set s \<Longrightarrow> split_on c s = [s]"
  by (induction s) auto

lemma split_on_append: "c \<notin> set a \<Longrightarrow> split_on c (a @ c # b) = a # split_on c b"
  by (induction a) auto

lemma split_on_join:
  "ps \<noteq> [] \<Longrightarrow> \<forall>p\<in>set ps. c \<notin> set p \<Longrightarrow> split_on c (join [c] ps) = ps"
proof (induction ps)
  case Nil
  then show ?case by simp
next
  case (Cons p ps)
  show ?case
  proof (cases ps)
    case Nil
    with Cons.prems show ?thesis by (simp add: split_on_notin)
  next
    case (Cons q qs)
    with Cons.IH Cons.prems have "split_on c (join [c] ps) = ps" by simp
    with Cons Cons.prems show ?thesis by (simp add: split_on_append)
  qed
qed

section \<open>The expression evaluator: examples and rules\<close>

lemma jqSingle_dot: "jqSingle rt d (CHR ''.'' # p) = jqPath rt d (split_on CHR ''.'' p)"
  by (cases p) (simp_all add: jqSingle_def)

lemma digit_not_bracket: "is_digit c \<Longrightarrow> c \<noteq> CHR '']'' \<and> c \<noteq> CHR ''['' \<and> c \<noteq> CHR ''.''"
  by (auto simp: is_digit_iff)

lemma takeWhile_digits: "takeWhile is_digit (show_nat i @ CHR '']'' # r) = show_nat i"
  using show_nat_digits [of _ i] by (simp add: takeWhile_tail is_digit_iff)

lemma dropWhile_digits: "dropWhile is_digit (show_nat i @ CHR '']'' # r) = CHR '']'' # r"
  using show_nat_digits [of _ i] by (simp add: dropWhile_append2 is_digit_iff)

lemma match_index_bracket: "match_index (CHR ''['' # show_nat i @ CHR '']'' # r) = Some (show_nat i)"
  by (simp add: takeWhile_digits dropWhile_digits show_nat_nonempty)

lemma takeWhile_plain: "CHR ''['' \<notin> set f \<Longrightarrow> takeWhile (\<lambda>c. c \<noteq> CHR ''['') (f @ CHR ''['' # r) = f"
  by (induction f) auto

lemma dropWhile_plain: "CHR ''['' \<notin> set f \<Longrightarrow> dropWhile (\<lambda>c. c \<noteq> CHR ''['') (f @ CHR ''['' # r) = CHR ''['' # r"
  by (induction f) auto

lemma jqPath_step_field:
  assumes "f \<noteq> []" "CHR ''['' \<notin> set f"
  shows "jqPath rt d (f # toks) =
     (case field_of rt d f of
        Some w \<Rightarrow> jqPath rt w toks
      | None \<Rightarrow> Inl (''field not found: '' @ f))"
  using assms by (auto simp: field_of_def)

lemma jqPath_step_index:
  assumes "CHR ''['' \<notin> set f"
  shows "jqPath rt d ((f @ ''['' @ show_nat i @ '']'') # toks) =
     (case (if f = [] then Some d else field_of rt d f) of
        None \<Rightarrow> Inl (''field not found: '' @ f)
      | Some v \<Rightarrow> (case item_of rt v i of None \<Rightarrow> Inr JNull | Some w \<Rightarrow> jqPath rt w toks))"
  using assms
  by (auto simp: field_of_def item_of_def takeWhile_plain dropWhile_plain match_index_bracket
      digits_val_show_nat Let_def simp del: match_index.simps)

lemma render_sel_no_dot: "plain (sel_name s) \<Longrightarrow> CHR ''.'' \<notin> set (render_sel s)"
  using show_nat_digits digit_not_bracket by (cases s) (auto simp: plain_def)

lemma jqPath_prefix:
  assumes "jq_names pre" "select rt d pre = Some cur"
  shows "jqPath rt d (map render_sel pre @ toks) = jqPath rt cur toks"
  using assms
proof (induction pre arbitrary: d)
  case Nil
  then show ?case by simp
next
  case (Cons s pre)
  from Cons.prems obtain w where w: "select_one rt d s = Some w" "select rt w pre = Some cur"
    by (auto split: option.splits)
  from Cons.prems have n: "jq_names pre" "plain (sel_name s)" "render_sel s \<noteq> []"
    by (auto simp: jq_names_def)
  have IH: "jqPath rt w (map render_sel pre @ toks) = jqPath rt cur toks"
    using Cons.IH n(1) w(2) by simp
  show ?case
  proof (cases s)
    case (Field f)
    with n have f: "f \<noteq> []" "CHR ''['' \<notin> set f" by (auto simp: plain_def)
    from w(1) Field have "field_of rt d f = Some w" by simp
    then show ?thesis
      using IH Field jqPath_step_field [OF f, of rt d] by simp
  next
    case (FieldAt f i)
    with n have f: "CHR ''['' \<notin> set f" by (auto simp: plain_def)
    from w(1) FieldAt obtain v where "(if f = [] then Some d else field_of rt d f) = Some v"
      "item_of rt v i = Some w"
      by (auto split: if_splits option.splits)
    then show ?thesis
      using IH FieldAt jqPath_step_index [OF f, of rt d i] by simp
  qed
qed

text \<open>
  The two rules of the evaluator about a dotted path, for every input and every runtime.
  Once the tokens before it have been resolved, a token naming a field that the current
  value does not have, neither itself nor by inheritance, is the error
  \<^verbatim>\<open>field not found\<close>, and a token whose index is not below the length of the sequence it
  addresses yields \<^verbatim>\<open>null\<close>, whatever follows it.
\<close>

lemma jq_path_rules:
  "(jq_names pre \<and> select rt d pre = Some cur \<and> f \<noteq> [] \<and> plain f \<and> field_of rt cur f = None
        \<and> (\<forall>t\<in>set rest. CHR ''.'' \<notin> set t)
      \<longrightarrow> jqSingle rt d (CHR ''.'' # join ''.'' (map render_sel pre @ f # rest))
            = Inl (''field not found: '' @ f))
   \<and> (jq_names pre \<and> select rt d pre = Some cur \<and> plain g
        \<and> (if g = [] then Some cur else field_of rt cur g) = Some (JArr xs) \<and> length xs \<le> i
        \<and> (\<forall>t\<in>set rest. CHR ''.'' \<notin> set t)
      \<longrightarrow> jqSingle rt d (CHR ''.'' # join ''.'' (map render_sel pre @ (g @ ''['' @ show_nat i @ '']'') # rest))
            = Inr JNull)"
proof -
  have split: "split_on CHR ''.'' (join ''.'' (map render_sel pre @ t # rest)) = map render_sel pre @ t # rest"
    if "jq_names pre" "CHR ''.'' \<notin> set t" "\<forall>t\<in>set rest. CHR ''.'' \<notin> set t" for t
    using that by (intro split_on_join) (auto simp: jq_names_def render_sel_no_dot)
  have g1: "jqSingle rt d (CHR ''.'' # join ''.'' (map render_sel pre @ f # rest))
            = Inl (''field not found: '' @ f)"
    if "jq_names pre" "select rt d pre = Some cur" "f \<noteq> []" "plain f" "field_of rt cur f = None"
       "\<forall>t\<in>set rest. CHR ''.'' \<notin> set t"
  proof -
    from that have f: "f \<noteq> []" "CHR ''['' \<notin> set f" "CHR ''.'' \<notin> set f"
      by (auto simp: plain_def)
    show ?thesis
      unfolding jqSingle_dot split [OF that(1) f(3) that(6)] jqPath_prefix [OF that(1,2)]
      using that(5) by (simp only: jqPath_step_field [OF f(1,2)] option.case)
  qed
  have g2: "jqSingle rt d (CHR ''.'' # join ''.'' (map render_sel pre @ (g @ ''['' @ show_nat i @ '']'') # rest))
            = Inr JNull"
    if "jq_names pre" "select rt d pre = Some cur" "plain g"
       "(if g = [] then Some cur else field_of rt cur g) = Some (JArr xs)" "length xs \<le> i"
       "\<forall>t\<in>set rest. CHR ''.'' \<notin> set t"
  proof -
    from that have g: "CHR ''['' \<notin> set g" "CHR ''.'' \<notin> set g"
      by (auto simp: plain_def)
    have t: "CHR ''.'' \<notin> set (g @ ''['' @ show_nat i @ '']'')"
      using g show_nat_digits digit_not_bracket by auto
    have "item_of rt (JArr xs) i = None" using that(5) by (simp add: item_of_def)
    then show ?thesis
      unfolding jqSingle_dot split [OF that(1) t that(6)] jqPath_prefix [OF that(1,2)]
      using that(4) by (simp only: jqPath_step_index [OF g(1)] option.case)
  qed
  from g1 g2 show ?thesis by blast
qed

text \<open>
  Claim C8 is what the evaluator should do, and the code misses it in the rule about
  missing fields. The five results of the specification are the results of the code, in
  every runtime: \<^verbatim>\<open>keys\<close> on \<^verbatim>\<open>{"a":1,"b":2}\<close> is \<^verbatim>\<open>["a","b"]\<close>; \<^verbatim>\<open>to_entries\<close> on \<^verbatim>\<open>{"a":1}\<close> is
  the one pair with \<^verbatim>\<open>key\<close> and \<^verbatim>\<open>value\<close>; \<^verbatim>\<open>.a.b[0]\<close> on \<^verbatim>\<open>{"a":{"b":[10,20]}}\<close> is 10 and
  \<^verbatim>\<open>.a.b[5]\<close> is \<^verbatim>\<open>null\<close>; \<^verbatim>\<open>length\<close> on \<^verbatim>\<open>[1,2,3]\<close> is 3. But the test for a field is
  \<^verbatim>\<open>tok in cur\<close>, which holds of the members that a value inherits: \<^verbatim>\<open>{"a":1}\<close> has the one
  field \<^verbatim>\<open>a\<close>, as \<^verbatim>\<open>keys\<close> says, and yet \<^verbatim>\<open>.toString\<close> on it is no error and gives a built-in
  function, \<^verbatim>\<open>.a.b.__proto__\<close> on \<^verbatim>\<open>{"a":{"b":[10,20]}}\<close> gives the prototype of arrays, and
  \<^verbatim>\<open>.__proto__ | keys\<close> gives the empty list.
\<close>

theorem jq_missing_field_inherited:
  "jqEval rt (JObj [(''a'', JNum 1), (''b'', JNum 2)]) ''keys'' = Inr (JArr [JStr ''a'', JStr ''b''])
   \<and> jqEval rt (JObj [(''a'', JNum 1)]) ''to_entries''
        = Inr (JArr [JObj [(''key'', JStr ''a''), (''value'', JNum 1)]])
   \<and> jqEval rt (JObj [(''a'', JObj [(''b'', JArr [JNum 10, JNum 20])])]) ''.a.b[0]'' = Inr (JNum 10)
   \<and> jqEval rt (JObj [(''a'', JObj [(''b'', JArr [JNum 10, JNum 20])])]) ''.a.b[5]'' = Inr JNull
   \<and> jqEval rt (JArr [JNum 1, JNum 2, JNum 3]) ''length'' = Inr (JNum 3)
   \<and> jqEval sample_runtime (JObj [(''a'', JNum 1)]) ''keys'' = Inr (JArr [JStr ''a''])
   \<and> jqEval sample_runtime (JObj [(''a'', JNum 1)]) ''.toString''
        = Inr (JHost ''Object.prototype.toString'')
   \<and> jqEval sample_runtime (JObj [(''a'', JObj [(''b'', JArr [JNum 10, JNum 20])])]) ''.a.b.__proto__''
        = Inr (JHost ''Array.prototype'')
   \<and> jqEval sample_runtime (JObj [(''a'', JNum 1)]) ''.__proto__ | keys'' = Inr (JArr [])"
proof -
  have e1: "jqEval rt (JObj [(''a'', JNum 1), (''b'', JNum 2)]) ''keys'' = Inr (JArr [JStr ''a'', JStr ''b''])"
    by code_simp
  have e2: "jqEval rt (JObj [(''a'', JNum 1)]) ''to_entries''
        = Inr (JArr [JObj [(''key'', JStr ''a''), (''value'', JNum 1)]])"
    by code_simp
  have e3: "jqEval rt (JObj [(''a'', JObj [(''b'', JArr [JNum 10, JNum 20])])]) ''.a.b[0]'' = Inr (JNum 10)"
    by code_simp
  have e4: "jqEval rt (JObj [(''a'', JObj [(''b'', JArr [JNum 10, JNum 20])])]) ''.a.b[5]'' = Inr JNull"
    by code_simp
  have e5: "jqEval rt (JArr [JNum 1, JNum 2, JNum 3]) ''length'' = Inr (JNum 3)"
    by code_simp
  have f1: "jqEval sample_runtime (JObj [(''a'', JNum 1)]) ''keys'' = Inr (JArr [JStr ''a''])"
    by code_simp
  have f2: "jqEval sample_runtime (JObj [(''a'', JNum 1)]) ''.toString''
        = Inr (JHost ''Object.prototype.toString'')"
    by code_simp
  have f3: "jqEval sample_runtime (JObj [(''a'', JObj [(''b'', JArr [JNum 10, JNum 20])])]) ''.a.b.__proto__''
        = Inr (JHost ''Array.prototype'')"
    by code_simp
  have f4: "jqEval sample_runtime (JObj [(''a'', JNum 1)]) ''.__proto__ | keys'' = Inr (JArr [])"
    by code_simp
  from e1 e2 e3 e4 e5 f1 f2 f3 f4 show ?thesis by blast
qed

theorem jq_missing_field_inherited_witness:
  "jqEval sample_runtime (JObj [(''a'', JNum 1), (''b'', JNum 2)]) ''keys''
     = Inr (JArr [JStr ''a'', JStr ''b''])
   \<and> jqEval sample_runtime (JObj [(''a'', JObj [(''b'', JArr [JNum 10, JNum 20])])]) ''.a.b[5]'' = Inr JNull
   \<and> jqEval sample_runtime (JObj [(''a'', JNum 1)]) ''.toString''
        = Inr (JHost ''Object.prototype.toString'')
   \<and> jqEval sample_runtime (JObj [(''a'', JNum 1)]) ''.__proto__ | keys'' = Inr (JArr [])"
  using jq_missing_field_inherited [of sample_runtime] by blast


section \<open>Reference resolution: round trip and failures\<close>

lemma split_bracket:
  assumes "CHR ''['' \<notin> set f"
  shows "split_on CHR ''['' (f @ ''['' @ show_nat i @ '']'') = [f, show_nat i @ '']'']"
proof -
  have "CHR ''['' \<notin> set (show_nat i @ '']'')"
    using show_nat_digits digit_not_bracket by auto
  then have "split_on CHR ''['' (show_nat i @ '']'') = [show_nat i @ '']'']"
    by (rule split_on_notin)
  with assms show ?thesis
    using split_on_append [of "CHR ''[''" f "show_nat i @ '']''"] by simp
qed

lemma remove_first_digits: "remove_first CHR '']'' (show_nat i @ '']'') = show_nat i"
proof -
  have "\<forall>c\<in>set ds. c \<noteq> CHR '']'' \<Longrightarrow> remove_first CHR '']'' (ds @ '']'') = ds" for ds
    by (induction ds) auto
  then show ?thesis
    using show_nat_digits digit_not_bracket by blast
qed

lemma field_of_own: "map_of kvs f = Some v \<Longrightarrow> field_of rt (JObj kvs) f = Some v"
  by (simp add: field_of_def has_prop_def get_prop_def member_def)

lemma refTokens_step_field:
  assumes "CHR ''['' \<notin> set f"
  shows "refTokens rt p v (f # toks) =
     (case field_of rt v f of
        Some w \<Rightarrow> refTokens rt p w toks
      | None \<Rightarrow> Inl (''$ref field not found: '' @ p))"
  using assms by (auto simp: field_of_def)

lemma refTokens_step_index:
  assumes "CHR ''['' \<notin> set f"
  shows "refTokens rt p v ((f @ ''['' @ show_nat i @ '']'') # toks) =
     (case (if f = [] then Some v else field_of rt v f) of
        None \<Rightarrow> Inl (''$ref field not found: '' @ p)
      | Some u \<Rightarrow> (case item_of rt u i of
                     None \<Rightarrow> Inl (''$ref index out of range: '' @ p)
                   | Some w \<Rightarrow> refTokens rt p w toks))"
proof -
  have 1: "CHR ''['' \<in> set (f @ ''['' @ show_nat i @ '']'')" by simp
  have 2: "last (f @ ''['' @ show_nat i @ '']'') = CHR '']''" by simp
  note 3 = split_bracket [OF assms, of i]
  show ?thesis
    unfolding refTokens.simps 3 Let_def
    using 1 2
    by (auto simp: field_of_def item_of_def remove_first_digits parseInt_show_nat)
qed

lemma refTokens_select:
  assumes "\<forall>s\<in>set sels. plain (sel_name s)"
  shows "(select rt v sels = Some w \<longrightarrow> refTokens rt p v (map render_sel sels) = Inr w)
     \<and> (select rt v sels = None \<longrightarrow> isl (refTokens rt p v (map render_sel sels)))"
  using assms
proof (induction sels arbitrary: v)
  case Nil
  then show ?case by simp
next
  case (Cons s sels)
  then have IH: "\<And>u. (select rt u sels = Some w \<longrightarrow> refTokens rt p u (map render_sel sels) = Inr w)
     \<and> (select rt u sels = None \<longrightarrow> isl (refTokens rt p u (map render_sel sels)))"
    by simp
  from Cons.prems have pl: "CHR ''['' \<notin> set (sel_name s)" by (simp add: plain_def)
  show ?case
  proof (cases s)
    case (Field f)
    with pl have f: "CHR ''['' \<notin> set f" by simp
    show ?thesis
      using IH Field
      by (simp add: refTokens_step_field [OF f] del: refTokens.simps split: option.splits)
  next
    case (FieldAt f i)
    with pl have f: "CHR ''['' \<notin> set f" by simp
    define t where "t = (if f = [] then Some v else field_of rt v f)"
    have 1: "select_one rt v s = (case t of None \<Rightarrow> None | Some u \<Rightarrow> item_of rt u i)"
      unfolding FieldAt t_def by simp
    have 2: "refTokens rt p v (map render_sel (s # sels)) =
       (case t of
          None \<Rightarrow> Inl (''$ref field not found: '' @ p)
        | Some u \<Rightarrow> (case item_of rt u i of
                       None \<Rightarrow> Inl (''$ref index out of range: '' @ p)
                     | Some w \<Rightarrow> refTokens rt p w (map render_sel sels)))"
      unfolding FieldAt t_def using refTokens_step_index [OF f, of rt p v i] by simp
    show ?thesis
      unfolding select.simps 1 2 using IH by (simp split: option.splits)
  qed
qed

lemma split_render_path:
  assumes "CHR ''.'' \<notin> set n" "\<forall>s\<in>set sels. plain (sel_name s)"
  shows "split_on CHR ''.'' (render_path n sels) = [''$'', ''nodes'', n, ''output''] @ map render_sel sels"
  unfolding render_path_def
  using assms by (intro split_on_join) (auto simp: render_sel_no_dot)

lemma resolveRef_render_path:
  assumes "CHR ''.'' \<notin> set n" "sels \<noteq> []" "\<forall>s\<in>set sels. plain (sel_name s)"
  shows "resolveRef rt (render_path n sels) ctx =
     (case field_of rt (JObj ctx) n of
        None \<Rightarrow> Inl (''$ref to unknown node: '' @ n)
      | Some out \<Rightarrow> refTokens rt (render_path n sels) out (map render_sel sels))"
proof -
  let ?parts = "[''$'', ''nodes'', n, ''output''] @ map render_sel sels"
  from assms(2) have 1: "\<not> length ?parts < 5" by (cases sels) auto
  have 2: "?parts ! 0 = ''$''" "?parts ! 1 = ''nodes''" "?parts ! 2 = n" "?parts ! 3 = ''output''"
    "drop 4 ?parts = map render_sel sels"
    by simp_all
  show ?thesis
    unfolding resolveRef_def split_render_path [OF assms(1,3)] Let_def
    by (simp only: 1 2 simp_thms if_False) (simp add: field_of_def)
qed

lemma resolveInput_ref: "resolveInput rt (JObj [(''$ref'', JStr p)]) ctx = resolveRef rt p ctx"
  by (simp add: reference_def get_prop_def member_def)

text \<open>
  Resolution follows the members that the values have. Let a path name \<open>n\<close> and then one
  or more tokens, each a field name or a field name with a bracketed index (names are
  path tokens: they hold no dot and no bracket). If the context holds an output for
  \<open>n\<close> and the tokens select the value \<open>v\<close> in it, through nested fields and array
  positions, resolving the path returns exactly \<open>v\<close>, directly and through a reference
  object in an input template. If the context has no member \<open>n\<close>, or a value on the way
  has no member under the field name, or an index is out of range or meets a value that
  is not a sequence, resolving fails with an error. A member is one that the value holds
  or one that it inherits.
\<close>

lemma reference_round_trip:
  assumes "CHR ''.'' \<notin> set n" and "sels \<noteq> []" and "\<forall>s\<in>set sels. plain (sel_name s)"
  shows "(map_of ctx n = Some out \<and> select rt out sels = Some v \<longrightarrow>
            resolveRef rt (render_path n sels) ctx = Inr v
            \<and> resolveInput rt (JObj [(''$ref'', JStr (render_path n sels))]) ctx = Inr v)
       \<and> (field_of rt (JObj ctx) n = None
            \<or> (field_of rt (JObj ctx) n = Some out \<and> select rt out sels = None) \<longrightarrow>
            isl (resolveRef rt (render_path n sels) ctx)
            \<and> isl (resolveInput rt (JObj [(''$ref'', JStr (render_path n sels))]) ctx))"
  unfolding resolveInput_ref resolveRef_render_path [OF assms]
  using refTokens_select [OF assms(3), of rt out v "render_path n sels"] field_of_own [of ctx n out rt]
  by auto

text \<open>
  Claim C5 is what resolution should do, and the code misses it in the failures. A value
  stored in the output of a node is found, in every runtime: with the output
  \<^verbatim>\<open>{"status":200,"body":{"items":[7,"x"]}}\<close> of the node \<^verbatim>\<open>fetch\<close>, the path
  \<^verbatim>\<open>$.nodes.fetch.output.body.items[1]\<close> resolves to \<^verbatim>\<open>"x"\<close>, and an index out of range, a field
  that is absent and a node that is absent are errors. But the tests are
  \<^verbatim>\<open>nodeId in context\<close> and \<^verbatim>\<open>token in val\<close>, which hold of inherited members: the empty
  context has no node \<^verbatim>\<open>__proto__\<close> and yet \<^verbatim>\<open>$.nodes.__proto__.output.__proto__\<close> resolves, to
  \<^verbatim>\<open>null\<close>; the output of \<^verbatim>\<open>fetch\<close> has no field \<^verbatim>\<open>toString\<close> and yet
  \<^verbatim>\<open>$.nodes.fetch.output.toString\<close> resolves, to a built-in function; and without any node
  \<^verbatim>\<open>constructor\<close>, \<^verbatim>\<open>$.nodes.constructor.output.x\<close> fails at the field and not at the node.
\<close>

theorem reference_to_inherited_member_resolves:
  "resolveRef rt ''$.nodes.fetch.output.body.items[1]''
      [(''fetch'', JObj [(''status'', JNum 200), (''body'', JObj [(''items'', JArr [JNum 7, JStr ''x''])])])]
     = Inr (JStr ''x'')
   \<and> resolveRef rt ''$.nodes.fetch.output.body.items[2]''
      [(''fetch'', JObj [(''status'', JNum 200), (''body'', JObj [(''items'', JArr [JNum 7, JStr ''x''])])])]
     = Inl ''$ref index out of range: $.nodes.fetch.output.body.items[2]''
   \<and> resolveRef sample_runtime ''$.nodes.fetch.output.head''
      [(''fetch'', JObj [(''status'', JNum 200), (''body'', JObj [(''items'', JArr [JNum 7, JStr ''x''])])])]
     = Inl ''$ref field not found: $.nodes.fetch.output.head''
   \<and> resolveRef sample_runtime ''$.nodes.parse.output.body'' [] = Inl ''$ref to unknown node: parse''
   \<and> resolveRef sample_runtime ''$.nodes.__proto__.output.__proto__'' [] = Inr JNull
   \<and> resolveRef sample_runtime ''$.nodes.fetch.output.toString''
      [(''fetch'', JObj [(''status'', JNum 200), (''body'', JObj [(''items'', JArr [JNum 7, JStr ''x''])])])]
     = Inr (JHost ''Object.prototype.toString'')
   \<and> resolveRef sample_runtime ''$.nodes.constructor.output.x'' []
     = Inl ''$ref field not found: $.nodes.constructor.output.x''"
proof -
  let ?ctx = "[(''fetch'', JObj [(''status'', JNum 200), (''body'', JObj [(''items'', JArr [JNum 7, JStr ''x''])])])]"
  have 1: "resolveRef rt ''$.nodes.fetch.output.body.items[1]'' ?ctx = Inr (JStr ''x'')"
    by code_simp
  have 2: "resolveRef rt ''$.nodes.fetch.output.body.items[2]'' ?ctx
     = Inl ''$ref index out of range: $.nodes.fetch.output.body.items[2]''"
    by code_simp
  have 3: "resolveRef sample_runtime ''$.nodes.fetch.output.head'' ?ctx
     = Inl ''$ref field not found: $.nodes.fetch.output.head''"
    by code_simp
  have 4: "resolveRef sample_runtime ''$.nodes.parse.output.body'' [] = Inl ''$ref to unknown node: parse''"
    by code_simp
  have 5: "resolveRef sample_runtime ''$.nodes.__proto__.output.__proto__'' [] = Inr JNull"
    by code_simp
  have 6: "resolveRef sample_runtime ''$.nodes.fetch.output.toString'' ?ctx
     = Inr (JHost ''Object.prototype.toString'')"
    by code_simp
  have 7: "resolveRef sample_runtime ''$.nodes.constructor.output.x'' []
     = Inl ''$ref field not found: $.nodes.constructor.output.x''"
    by code_simp
  from 1 2 3 4 5 6 7 show ?thesis by blast
qed

theorem reference_to_inherited_member_resolves_witness:
  "resolveRef sample_runtime ''$.nodes.fetch.output.body.items[1]''
      [(''fetch'', JObj [(''status'', JNum 200), (''body'', JObj [(''items'', JArr [JNum 7, JStr ''x''])])])]
     = Inr (JStr ''x'')
   \<and> resolveRef sample_runtime ''$.nodes.__proto__.output.__proto__'' [] = Inr JNull
   \<and> resolveRef sample_runtime ''$.nodes.fetch.output.toString''
      [(''fetch'', JObj [(''status'', JNum 200), (''body'', JObj [(''items'', JArr [JNum 7, JStr ''x''])])])]
     = Inr (JHost ''Object.prototype.toString'')"
  using reference_to_inherited_member_resolves [of sample_runtime] by blast


section \<open>The sequencer: in-degrees, the queue loop and its invariant\<close>

lemma map_of_None_keys: "map_of t k = None \<longleftrightarrow> k \<notin> set (table_keys t)"
  by (simp add: map_of_eq_None_iff table_keys_def)

lemma keys_update:
  "table_keys (AList.update k v t) = (if k \<in> set (table_keys t) then table_keys t else table_keys t @ [k])"
  unfolding table_keys_def by (rule update_keys)

lemma distinct_keys_update: "distinct (table_keys t) \<Longrightarrow> distinct (table_keys (AList.update k v t))"
  unfolding table_keys_def by (rule distinct_update)

lemma deg_ensure: "deg (ensure_num k t) = deg t"
  by (auto simp: ensure_num_def deg_def update_conv' fun_eq_iff split: option.splits)

lemma keys_ensure:
  "table_keys (ensure_num k t) = (if k \<in> set (table_keys t) then table_keys t else table_keys t @ [k])"
  by (cases "map_of t k") (auto simp: ensure_num_def keys_update map_of_None_keys [symmetric])

lemma distinct_ensure: "distinct (table_keys t) \<Longrightarrow> distinct (table_keys (ensure_num k t))"
  by (simp add: ensure_num_def distinct_keys_update split: option.splits)

lemma deg_increment: "deg (increment_num k t) = (deg t)(k := deg t k + 1)"
  by (auto simp: increment_num_def deg_def update_conv' fun_eq_iff split: option.splits)

lemma keys_increment:
  "table_keys (increment_num k t) = (if k \<in> set (table_keys t) then table_keys t else table_keys t @ [k])"
  by (simp add: increment_num_def keys_update)

lemma distinct_increment: "distinct (table_keys t) \<Longrightarrow> distinct (table_keys (increment_num k t))"
  by (simp add: increment_num_def distinct_keys_update)

lemma keys_decrement: "table_keys (decrement_num k t) = table_keys t"
  by (cases "map_of t k") (auto simp: decrement_num_def keys_update map_of_None_keys [symmetric])

lemma map_of_decrement:
  "k \<in> set (table_keys t) \<Longrightarrow> map_of (decrement_num k t) k = Some (deg t k - 1)"
  by (cases "map_of t k") (auto simp: decrement_num_def deg_def update_conv' map_of_None_keys)

lemma deg_decrement:
  "k \<in> set (table_keys t) \<Longrightarrow> deg (decrement_num k t) = (deg t)(k := deg t k - 1)"
  by (cases "map_of t k")
    (auto simp: decrement_num_def deg_def update_conv' fun_eq_iff map_of_None_keys)

lemma enter_ids_spec:
  "deg (enter_ids_num ns t) = deg t
   \<and> set (table_keys (enter_ids_num ns t)) = set (table_keys t) \<union> node_id ` set ns
   \<and> (distinct (table_keys t) \<longrightarrow> distinct (table_keys (enter_ids_num ns t)))"
  unfolding enter_ids_num_def
  by (induction ns arbitrary: t) (auto simp: deg_ensure keys_ensure distinct_ensure)

lemma count_loop_spec:
  "deg (fold (\<lambda>dep t. ensure_num dep (increment_num k t)) ds t) = (deg t)(k := deg t k + int (length ds))
   \<and> set (table_keys (fold (\<lambda>dep t. ensure_num dep (increment_num k t)) ds t))
       = set (table_keys t) \<union> set ds \<union> (if ds = [] then {} else {k})
   \<and> (distinct (table_keys t) \<longrightarrow> distinct (table_keys (fold (\<lambda>dep t. ensure_num dep (increment_num k t)) ds t)))"
proof (induction ds arbitrary: t)
  case Nil
  then show ?case by simp
next
  case (Cons d ds)
  note IH = Cons.IH [of "ensure_num d (increment_num k t)"]
  show ?case
    unfolding fold_Cons comp_def
    using IH
    by (auto simp: deg_ensure deg_increment keys_ensure keys_increment distinct_ensure
        distinct_increment fun_eq_iff split: if_splits)
qed

lemma count_deps_spec:
  "deg (count_deps_num n t) = (deg t)(node_id n := deg t (node_id n) + int (length (deps n)))
   \<and> set (table_keys (count_deps_num n t))
       = set (table_keys t) \<union> set (deps n) \<union> (if deps n = [] then {} else {node_id n})
   \<and> (distinct (table_keys t) \<longrightarrow> distinct (table_keys (count_deps_num n t)))"
  unfolding count_deps_num_def by (rule count_loop_spec)

lemma fold_count_deps_spec:
  "(\<forall>k. deg (fold count_deps_num ns t) k
        = deg t k + (\<Sum>n\<leftarrow>ns. if node_id n = k then int (length (deps n)) else 0))
   \<and> set (table_keys (fold count_deps_num ns t))
       = set (table_keys t) \<union> (\<Union>n\<in>set ns. set (deps n) \<union> (if deps n = [] then {} else {node_id n}))
   \<and> (distinct (table_keys t) \<longrightarrow> distinct (table_keys (fold count_deps_num ns t)))"
proof (induction ns arbitrary: t)
  case Nil
  then show ?case by simp
next
  case (Cons n ns)
  note IH = Cons.IH [of "count_deps_num n t"]
  note S = count_deps_spec [of n t]
  show ?case
    unfolding fold_Cons comp_def
    using IH S by (auto split: if_splits)
qed

lemma indegrees_spec:
  "deg (indegrees_num nds) = need nds {}
   \<and> set (table_keys (indegrees_num nds)) = node_id ` set nds \<union> (\<Union>n\<in>set nds. set (deps n))
   \<and> distinct (table_keys (indegrees_num nds))"
proof -
  have e: "deg (enter_ids_num nds []) = (\<lambda>k. 0)" "set (table_keys (enter_ids_num nds [])) = node_id ` set nds"
    "distinct (table_keys (enter_ids_num nds []))"
    using enter_ids_spec [of nds "[]"] by (auto simp: deg_def table_keys_def fun_eq_iff)
  show ?thesis
    unfolding indegrees_num_def need_def
    using fold_count_deps_spec [of nds "enter_ids_num nds []"] e
    by (auto simp: fun_eq_iff cong: if_cong split: if_splits)
qed

lemma card_inter_le: "int (card (set ds \<inter> D)) \<le> int (length ds)"
proof -
  have "card (set ds \<inter> D) \<le> card (set ds)" by (intro card_mono) auto
  also have "\<dots> \<le> length ds" by (rule card_length)
  finally show ?thesis by simp
qed

lemma card_inter_full: "card (set ds \<inter> D) = length ds \<longleftrightarrow> set ds \<subseteq> D \<and> distinct ds"
proof
  assume a: "card (set ds \<inter> D) = length ds"
  have 1: "card (set ds \<inter> D) \<le> card (set ds)" by (intro card_mono) auto
  have 2: "card (set ds) \<le> length ds" by (rule card_length)
  from a 1 2 have c: "card (set ds) = length ds" "card (set ds \<inter> D) = card (set ds)" by auto
  from c(2) have "set ds \<inter> D = set ds"
    by (intro card_subset_eq) auto
  with c(1) show "set ds \<subseteq> D \<and> distinct ds"
    by (auto simp: card_distinct)
next
  assume "set ds \<subseteq> D \<and> distinct ds"
  then have "set ds \<inter> D = set ds" "card (set ds) = length ds"
    by (auto simp: distinct_card)
  then show "card (set ds \<inter> D) = length ds" by simp
qed

lemma need_nonneg: "0 \<le> need nds D k"
  unfolding need_def using card_inter_le by (intro sum_list_nonneg) auto

lemma hits_nonneg: "0 \<le> hits cur ns k"
  unfolding hits_def by (intro sum_list_nonneg) auto

lemma hits_pos_node: "0 < hits cur ns k \<Longrightarrow> \<exists>n\<in>set ns. node_id n = k \<and> cur \<in> set (deps n)"
  unfolding hits_def by (induction ns) (auto split: if_splits)

lemma card_inter_insert:
  "cur \<notin> D \<Longrightarrow> int (card (set ds \<inter> insert cur D)) = int (card (set ds \<inter> D)) + (if cur \<in> set ds then 1 else 0)"
proof -
  assume c: "cur \<notin> D"
  show ?thesis
  proof (cases "cur \<in> set ds")
    case True
    then have "set ds \<inter> insert cur D = insert cur (set ds \<inter> D)" by auto
    moreover have "cur \<notin> set ds \<inter> D" using c by simp
    ultimately show ?thesis using True by simp
  next
    case False
    then have "set ds \<inter> insert cur D = set ds \<inter> D" by auto
    then show ?thesis using False by simp
  qed
qed

lemma need_insert: "cur \<notin> D \<Longrightarrow> need nds (insert cur D) k = need nds D k - hits cur nds k"
  unfolding need_def hits_def
  by (induction nds) (auto simp: card_inter_insert)

lemma need_zero_iff:
  "need nds D k = 0 \<longleftrightarrow> (\<forall>n\<in>set nds. node_id n = k \<longrightarrow> set (deps n) \<subseteq> D \<and> distinct (deps n))"
proof (induction nds)
  case Nil
  then show ?case by (simp add: need_def)
next
  case (Cons n ns)
  let ?a = "if node_id n = k then int (length (deps n)) - int (card (set (deps n) \<inter> D)) else 0"
  have 1: "need (n # ns) D k = ?a + need ns D k"
    by (simp add: need_def)
  have 2: "0 \<le> ?a" using card_inter_le [of "deps n" D] by simp
  have 3: "0 \<le> need ns D k" by (rule need_nonneg)
  have 4: "?a = 0 \<longleftrightarrow> (node_id n = k \<longrightarrow> set (deps n) \<subseteq> D \<and> distinct (deps n))"
    using card_inter_full [of "deps n" D] by auto
  have "need (n # ns) D k = 0 \<longleftrightarrow> ?a = 0 \<and> need ns D k = 0"
    unfolding 1 using 2 3 by linarith
  then show ?case
    unfolding 4 Cons.IH by auto
qed

lemma need_no_node: "k \<notin> node_id ` set nds \<Longrightarrow> need nds D k = 0"
  by (auto simp: need_zero_iff)

lemma hits_Cons:
  "hits cur (n # ns) k = (if node_id n = k \<and> cur \<in> set (deps n) then 1 else 0) + hits cur ns k"
  by (simp add: hits_def)

lemma release_spec:
  assumes "\<forall>n\<in>set ns. node_id n \<in> set (table_keys t)"
    and "\<forall>k. 0 < hits cur ns k \<longrightarrow> hits cur ns k \<le> deg t k"
  shows "table_keys (fst (release_num cur ns t q)) = table_keys t
     \<and> (\<forall>k. deg (fst (release_num cur ns t q)) k = deg t k - hits cur ns k)
     \<and> (\<exists>pushed. snd (release_num cur ns t q) = q @ pushed \<and> distinct pushed
           \<and> set pushed = {k. 0 < hits cur ns k \<and> deg t k = hits cur ns k})"
  using assms
proof (induction ns arbitrary: t q)
  case Nil
  then show ?case by (simp add: hits_def)
next
  case (Cons n ns)
  show ?case
  proof (cases "cur \<in> set (deps n)")
    case False
    then have h: "hits cur (n # ns) = hits cur ns"
      by (simp add: hits_Cons fun_eq_iff)
    from Cons.prems have "\<forall>n\<in>set ns. node_id n \<in> set (table_keys t)"
      "\<forall>k. 0 < hits cur ns k \<longrightarrow> hits cur ns k \<le> deg t k"
      unfolding h by auto
    from Cons.IH [OF this, of q] show ?thesis
      unfolding h using False by simp
  next
    case True
    define k0 where "k0 = node_id n"
    define t1 where "t1 = decrement_num k0 t"
    define q1 where "q1 = (if map_of t1 k0 = Some 0 then q @ [k0] else q)"
    have h: "hits cur (n # ns) k = (if k = k0 then 1 else 0) + hits cur ns k" for k
      using True by (auto simp: hits_Cons k0_def)
    have k0: "k0 \<in> set (table_keys t)"
      using Cons.prems(1) by (simp add: k0_def)
    have keys1: "table_keys t1 = table_keys t"
      by (simp add: t1_def keys_decrement)
    have deg1: "deg t1 k = (if k = k0 then deg t k0 - 1 else deg t k)" for k
      using deg_decrement [OF k0] by (simp add: t1_def)
    have m1: "map_of t1 k0 = Some (deg t k0 - 1)"
      using map_of_decrement [OF k0] by (simp add: t1_def)
    have le: "1 + hits cur ns k0 \<le> deg t k0"
      using Cons.prems(2) [rule_format, of k0] hits_nonneg [of cur ns k0] by (simp add: h)
    have p1: "\<forall>n\<in>set ns. node_id n \<in> set (table_keys t1)"
      using Cons.prems(1) keys1 by simp
    have p2: "\<forall>k. 0 < hits cur ns k \<longrightarrow> hits cur ns k \<le> deg t1 k"
    proof (intro allI impI)
      fix k assume "0 < hits cur ns k"
      then show "hits cur ns k \<le> deg t1 k"
        using Cons.prems(2) [rule_format, of k] le by (cases "k = k0") (auto simp: h deg1)
    qed
    have R: "release_num cur (n # ns) t q = release_num cur ns t1 q1"
      using True by (simp add: t1_def q1_def k0_def)
    from Cons.IH [OF p1 p2, of q1] obtain pushed where
      I: "table_keys (fst (release_num cur ns t1 q1)) = table_keys t1"
         "\<forall>k. deg (fst (release_num cur ns t1 q1)) k = deg t1 k - hits cur ns k"
         "snd (release_num cur ns t1 q1) = q1 @ pushed" "distinct pushed"
         "set pushed = {k. 0 < hits cur ns k \<and> deg t1 k = hits cur ns k}"
      by blast
    have A: "table_keys (fst (release_num cur (n # ns) t q)) = table_keys t"
      unfolding R using I(1) keys1 by simp
    have B: "\<forall>k. deg (fst (release_num cur (n # ns) t q)) k = deg t k - hits cur (n # ns) k"
      unfolding R using I(2) by (auto simp: deg1 h)
    have S: "snd (release_num cur (n # ns) t q) = q1 @ pushed"
      using R I(3) by simp
    have C: "\<exists>pushed. snd (release_num cur (n # ns) t q) = q @ pushed \<and> distinct pushed
           \<and> set pushed = {k. 0 < hits cur (n # ns) k \<and> deg t k = hits cur (n # ns) k}"
    proof (cases "deg t k0 - 1 = 0")
      case True
      then have q1: "q1 = q @ [k0]" by (simp add: q1_def m1)
      from True le hits_nonneg [of cur ns k0] have z: "hits cur ns k0 = 0" "deg t k0 = 1"
        by auto
      have "k0 \<notin> set pushed" using I(5) z by simp
      moreover have "set (k0 # pushed) = {k. 0 < hits cur (n # ns) k \<and> deg t k = hits cur (n # ns) k}"
        using I(5) z hits_nonneg [of cur ns] by (auto simp: h deg1)
      ultimately show ?thesis
        unfolding S q1 using I(4) by (intro exI [of _ "k0 # pushed"]) simp
    next
      case False
      then have q1: "q1 = q" by (simp add: q1_def m1)
      have "set pushed = {k. 0 < hits cur (n # ns) k \<and> deg t k = hits cur (n # ns) k}"
      proof -
        have "(0 < hits cur ns k \<and> deg t1 k = hits cur ns k)
            \<longleftrightarrow> (0 < hits cur (n # ns) k \<and> deg t k = hits cur (n # ns) k)" for k
          using False hits_nonneg [of cur ns k] by (cases "k = k0") (auto simp: h deg1)
        then show ?thesis using I(5) by simp
      qed
      then show ?thesis
        unfolding S q1 using I(4) by (intro exI [of _ pushed]) simp
    qed
    from A B C show ?thesis by blast
  qed
qed

lemma kahn_inv_step:
  assumes "kahn_inv nds t (cur # queue) ord"
  shows "kahn_inv nds (fst (release_num cur nds t queue)) (snd (release_num cur nds t queue)) (ord @ [cur])
     \<and> table_keys (fst (release_num cur nds t queue)) = table_keys t"
proof -
  let ?R = "release_num cur nds t queue"
  from assms have
    keys: "node_id ` set nds \<subseteq> set (table_keys t)" and
    degs: "\<And>k. deg t k = need nds (set ord) k" and
    dist: "distinct (ord @ cur # queue)" and
    sets: "set (ord @ cur # queue) = {k \<in> set (table_keys t). deg t k = 0}" and
    clos: "\<And>i n. i < length ord \<Longrightarrow> n \<in> set nds \<Longrightarrow> node_id n = ord ! i \<Longrightarrow> set (deps n) \<subseteq> set (take i ord)"
    unfolding kahn_inv_def by auto
  from dist have cur: "cur \<notin> set ord" "cur \<notin> set queue" by auto
  have ni: "need nds (insert cur (set ord)) k = deg t k - hits cur nds k" for k
    using need_insert [OF cur(1)] degs by simp
  have p1: "\<forall>n\<in>set nds. node_id n \<in> set (table_keys t)"
    using keys by auto
  have p2: "\<forall>k. 0 < hits cur nds k \<longrightarrow> hits cur nds k \<le> deg t k"
  proof (intro allI impI)
    fix k
    show "hits cur nds k \<le> deg t k"
      using ni [of k] need_nonneg [of nds "insert cur (set ord)" k] by linarith
  qed
  from release_spec [OF p1 p2, of queue] obtain pushed where
    R: "table_keys (fst ?R) = table_keys t"
       "\<And>k. deg (fst ?R) k = deg t k - hits cur nds k"
       "snd ?R = queue @ pushed" "distinct pushed"
       "set pushed = {k. 0 < hits cur nds k \<and> deg t k = hits cur nds k}"
    by blast
  have curz: "deg t cur = 0" using sets by auto
  have a: "node_id ` set nds \<subseteq> set (table_keys (fst ?R))"
    using keys R(1) by simp
  have b: "\<forall>k. deg (fst ?R) k = need nds (set (ord @ [cur])) k"
    using R(2) ni by simp
  have pk: "set pushed \<subseteq> set (table_keys t)"
    using R(5) hits_pos_node keys by fastforce
  have pz: "k \<in> set pushed \<Longrightarrow> deg t k \<noteq> 0" for k
    using R(5) by auto
  have c: "distinct ((ord @ [cur]) @ snd ?R)"
    unfolding R(3) using dist R(4) pz sets by auto
  have d: "set ((ord @ [cur]) @ snd ?R) = {k \<in> set (table_keys (fst ?R)). deg (fst ?R) k = 0}"
  proof (intro set_eqI iffI)
    fix k assume "k \<in> set ((ord @ [cur]) @ snd ?R)"
    then consider "k \<in> set (ord @ cur # queue)" | "k \<in> set pushed"
      unfolding R(3) by auto
    then show "k \<in> {k \<in> set (table_keys (fst ?R)). deg (fst ?R) k = 0}"
    proof cases
      case 1
      with sets have k: "k \<in> set (table_keys t)" "deg t k = 0" by auto
      with p2 hits_nonneg [of cur nds k] have "hits cur nds k = 0"
        by (metis less_le not_le)
      with k show ?thesis using R(1,2) by simp
    next
      case 2
      with pk R(5) show ?thesis using R(1,2) by auto
    qed
  next
    fix k assume "k \<in> {k \<in> set (table_keys (fst ?R)). deg (fst ?R) k = 0}"
    then have k: "k \<in> set (table_keys t)" "deg t k = hits cur nds k"
      using R(1,2) by auto
    show "k \<in> set ((ord @ [cur]) @ snd ?R)"
    proof (cases "deg t k = 0")
      case True
      with k sets have "k \<in> set (ord @ cur # queue)" by blast
      then show ?thesis unfolding R(3) by auto
    next
      case False
      with k hits_nonneg [of cur nds k] have "0 < hits cur nds k" by simp
      with k R(5) have "k \<in> set pushed" by simp
      then show ?thesis unfolding R(3) by simp
    qed
  qed
  have e: "\<forall>i<length (ord @ [cur]). \<forall>n\<in>set nds. node_id n = (ord @ [cur]) ! i
        \<longrightarrow> set (deps n) \<subseteq> set (take i (ord @ [cur]))"
  proof (intro allI impI ballI)
    fix i n assume i: "i < length (ord @ [cur])" and n: "n \<in> set nds" "node_id n = (ord @ [cur]) ! i"
    show "set (deps n) \<subseteq> set (take i (ord @ [cur]))"
    proof (cases "i < length ord")
      case True
      with n clos [of i n] show ?thesis by (simp add: nth_append)
    next
      case False
      with i have i: "i = length ord" by simp
      with n have "node_id n = cur" by simp
      moreover have "need nds (set ord) cur = 0" using degs curz by simp
      ultimately have "set (deps n) \<subseteq> set ord"
        using n(1) by (auto simp: need_zero_iff)
      then show ?thesis using i by simp
    qed
  qed
  from a b c d e R(1) show ?thesis
    unfolding kahn_inv_def by blast
qed

lemma kahn_inv_final:
  assumes "kahn_inv nds t queue ord"
  shows "kahn_inv nds (fst (kahn_num nds t queue ord)) [] (snd (kahn_num nds t queue ord))
     \<and> table_keys (fst (kahn_num nds t queue ord)) = table_keys t"
  using assms
proof (induction nds t queue ord rule: kahn_num.induct)
  case (1 nds t ord)
  then show ?case by simp
next
  case (2 nds t cur queue ord)
  from kahn_inv_step [OF "2.prems"] "2.IH" show ?case by simp
qed

lemma set_object_entries: "set (object_entries t) = set t"
  unfolding object_entries_def by auto

lemma distinct_object_entries:
  assumes "distinct (map fst t)"
  shows "distinct (map fst (object_entries t))"
proof -
  from assms have d: "distinct t" and i: "inj_on fst (set t)"
    by (auto simp: distinct_map)
  have "distinct (object_entries t)"
    unfolding object_entries_def using d by auto
  then show ?thesis
    using i by (simp add: distinct_map set_object_entries)
qed

lemma object_entries_plain:
  "\<forall>k\<in>set (map fst t). array_index k = None \<Longrightarrow> object_entries t = t"
proof -
  assume a: "\<forall>k\<in>set (map fst t). array_index k = None"
  then have 1: "filter (\<lambda>(k, v). array_index k \<noteq> None) t = []"
    by (induction t) auto
  from a have 2: "filter (\<lambda>(k, v). array_index k = None) t = t"
    by (induction t) auto
  show ?thesis
    unfolding object_entries_def 1 2 by simp
qed

lemma deg_entry: "distinct (table_keys t) \<Longrightarrow> (k, d) \<in> set t \<Longrightarrow> deg t k = d"
  by (simp add: deg_def table_keys_def)

lemma keys_with:
  assumes "distinct (table_keys t)"
  shows "set (map fst (filter (\<lambda>(k, d). P d) (object_entries t))) = {k \<in> set (table_keys t). P (deg t k)}"
    and "distinct (map fst (filter (\<lambda>(k, d). P d) (object_entries t)))"
proof -
  have "set (map fst (filter (\<lambda>(k, d). P d) (object_entries t))) = {k. \<exists>d. (k, d) \<in> set t \<and> P d}"
    by (auto simp: set_object_entries image_iff)
  also have "\<dots> = {k \<in> set (table_keys t). P (deg t k)}"
  proof (intro set_eqI iffI)
    fix k assume "k \<in> {k. \<exists>d. (k, d) \<in> set t \<and> P d}"
    then obtain d where d: "(k, d) \<in> set t" "P d" by auto
    then have "k \<in> set (table_keys t)" by (force simp: table_keys_def)
    with d deg_entry [OF assms d(1)] show "k \<in> {k \<in> set (table_keys t). P (deg t k)}" by simp
  next
    fix k assume "k \<in> {k \<in> set (table_keys t). P (deg t k)}"
    then have k: "k \<in> set (table_keys t)" "P (deg t k)" by auto
    then obtain d where d: "(k, d) \<in> set t" by (auto simp: table_keys_def)
    with k deg_entry [OF assms d] show "k \<in> {k. \<exists>d. (k, d) \<in> set t \<and> P d}" by auto
  qed
  finally show "set (map fst (filter (\<lambda>(k, d). P d) (object_entries t))) = {k \<in> set (table_keys t). P (deg t k)}" .
  show "distinct (map fst (filter (\<lambda>(k, d). P d) (object_entries t)))"
    using distinct_object_entries [of t] assms
    by (simp add: table_keys_def distinct_map_filter)
qed

lemma kahn_inv_init:
  "kahn_inv nds (indegrees_num nds)
     (map fst (filter (\<lambda>(k, deg). deg = 0) (object_entries (indegrees_num nds)))) []"
proof -
  let ?t = "indegrees_num nds"
  note S = indegrees_spec [of nds]
  from S have d: "distinct (table_keys ?t)" by simp
  have 1: "node_id ` set nds \<subseteq> set (table_keys ?t)" using S by auto
  have 2: "\<forall>k. deg ?t k = need nds (set []) k" using S by simp
  note 3 = keys_with [OF d, of "\<lambda>d. d = 0"]
  show ?thesis
    unfolding kahn_inv_def using 1 2 3 by simp
qed

lemma topoSort_unfold:
  "order (topoSort_num nds) = snd (kahn_num nds (indegrees_num nds)
       (map fst (filter (\<lambda>(k, deg). deg = 0) (object_entries (indegrees_num nds)))) [])"
  "cycles (topoSort_num nds) = map fst (filter (\<lambda>(k, deg). deg > 0)
       (object_entries (fst (kahn_num nds (indegrees_num nds)
       (map fst (filter (\<lambda>(k, deg). deg = 0) (object_entries (indegrees_num nds)))) []))))"
  by (simp_all add: topoSort_num_def Let_def split: prod.splits)

lemma topoSort_facts:
  "distinct (order (topoSort_num nds))"
  "distinct (cycles (topoSort_num nds))"
  "set (order (topoSort_num nds)) = {k \<in> all_keys nds. need nds (set (order (topoSort_num nds))) k = 0}"
  "set (cycles (topoSort_num nds)) = {k \<in> all_keys nds. need nds (set (order (topoSort_num nds))) k > 0}"
  "\<forall>i<length (order (topoSort_num nds)). \<forall>n\<in>set nds. node_id n = order (topoSort_num nds) ! i
      \<longrightarrow> set (deps n) \<subseteq> set (take i (order (topoSort_num nds)))"
proof -
  define t0 where "t0 = indegrees_num nds"
  define q0 where "q0 = map fst (filter (\<lambda>(k, deg). deg = 0) (object_entries t0))"
  define t where "t = fst (kahn_num nds t0 q0 [])"
  define ord where "ord = snd (kahn_num nds t0 q0 [])"
  have o: "order (topoSort_num nds) = ord"
    and c: "cycles (topoSort_num nds) = map fst (filter (\<lambda>(k, deg). deg > 0) (object_entries t))"
    unfolding topoSort_unfold t_def ord_def q0_def t0_def by simp_all
  from kahn_inv_final [OF kahn_inv_init [of nds]] have
    I: "kahn_inv nds t [] ord" and k: "table_keys t = table_keys t0"
    unfolding t_def ord_def q0_def t0_def by simp_all
  have keys: "set (table_keys t) = all_keys nds" "distinct (table_keys t)"
    using indegrees_spec [of nds] k by (simp_all add: all_keys_def t0_def)
  from I have degs: "\<forall>k. deg t k = need nds (set ord) k"
    unfolding kahn_inv_def by (elim conjE)
  then have degs': "\<And>k. need nds (set ord) k = deg t k" by simp
  from I have "distinct (ord @ [])"
    unfolding kahn_inv_def by (elim conjE)
  then have dist: "distinct ord" by simp
  from I have "set (ord @ []) = {k \<in> set (table_keys t). deg t k = 0}"
    unfolding kahn_inv_def by (elim conjE)
  then have sets: "set ord = {k \<in> set (table_keys t). deg t k = 0}"
    by (simp only: append_Nil2)
  from I have clos: "\<forall>i<length ord. \<forall>n\<in>set nds. node_id n = ord ! i \<longrightarrow> set (deps n) \<subseteq> set (take i ord)"
    unfolding kahn_inv_def by (elim conjE)
  show "distinct (order (topoSort_num nds))"
    unfolding o by (rule dist)
  show "distinct (cycles (topoSort_num nds))"
    unfolding c by (rule keys_with(2) [OF keys(2)])
  show "set (order (topoSort_num nds)) = {k \<in> all_keys nds. need nds (set (order (topoSort_num nds))) k = 0}"
    unfolding o degs' keys(1) [symmetric] by (rule sets)
  show "set (cycles (topoSort_num nds)) = {k \<in> all_keys nds. need nds (set (order (topoSort_num nds))) k > 0}"
    unfolding o c keys_with(1) [OF keys(2)] degs' keys(1) [symmetric] by (rule refl)
  show "\<forall>i<length (order (topoSort_num nds)). \<forall>n\<in>set nds. node_id n = order (topoSort_num nds) ! i
      \<longrightarrow> set (deps n) \<subseteq> set (take i (order (topoSort_num nds)))"
    unfolding o by (rule clos)
qed

lemma dep_edges_iff:
  "(d, k) \<in> set (dep_edges nds) \<longleftrightarrow> (\<exists>n\<in>set nds. node_id n = k \<and> d \<in> set (deps n))"
  by (auto simp: dep_edges_def)

lemma order_edge_before:
  assumes "(a, b) \<in> set (dep_edges nds)" "i < length (order (topoSort_num nds))"
    "order (topoSort_num nds) ! i = b"
  shows "\<exists>j<i. order (topoSort_num nds) ! j = a"
proof -
  from assms(1) obtain n where n: "n \<in> set nds" "node_id n = b" "a \<in> set (deps n)"
    by (auto simp: dep_edges_iff)
  with topoSort_facts(5) [of nds] assms(2,3)
  have "a \<in> set (take i (order (topoSort_num nds)))" by auto
  then obtain j where "j < length (take i (order (topoSort_num nds)))"
    "take i (order (topoSort_num nds)) ! j = a"
    by (auto simp: in_set_conv_nth)
  then show ?thesis by (intro exI [of _ j]) simp
qed

lemma order_path_before:
  assumes "(a, b) \<in> (set (dep_edges nds))\<^sup>+"
  shows "\<forall>i<length (order (topoSort_num nds)). order (topoSort_num nds) ! i = b
           \<longrightarrow> (\<exists>j<i. order (topoSort_num nds) ! j = a)"
  using assms
proof (induction rule: trancl_induct)
  case (base y)
  then show ?case using order_edge_before by blast
next
  case (step y z)
  show ?case
  proof (intro allI impI)
    fix i assume i: "i < length (order (topoSort_num nds))" "order (topoSort_num nds) ! i = z"
    from order_edge_before [OF step.hyps(2) i] obtain j where
      j: "j < i" "order (topoSort_num nds) ! j = y" by blast
    with i(1) step.IH obtain j' where "j' < j" "order (topoSort_num nds) ! j' = a"
      by (metis less_trans)
    with j(1) show "\<exists>j<i. order (topoSort_num nds) ! j = a"
      by (intro exI [of _ j']) simp
  qed
qed

lemma on_cycle_not_ordered:
  assumes "(x, x) \<in> (set (dep_edges nds))\<^sup>+"
  shows "x \<notin> set (order (topoSort_num nds))"
proof
  let ?ord = "order (topoSort_num nds)"
  assume "x \<in> set ?ord"
  have d: "distinct ?ord" by (rule topoSort_facts(1))
  have "\<forall>i<length ?ord. ?ord ! i \<noteq> x"
  proof (intro allI impI)
    fix i assume "i < length ?ord"
    then show "?ord ! i \<noteq> x"
    proof (induction i rule: less_induct)
      case (less i)
      show ?case
      proof
        assume "?ord ! i = x"
        with order_path_before [OF assms] less.prems obtain j where "j < i" "?ord ! j = x"
          by blast
        with less.IH less.prems show False by simp
      qed
    qed
  qed
  with \<open>x \<in> set ?ord\<close> show False by (auto simp: in_set_conv_nth)
qed

lemma on_cycle_in_cycles:
  assumes "(x, x) \<in> (set (dep_edges nds))\<^sup>+"
  shows "x \<in> set (cycles (topoSort_num nds))"
proof -
  from assms obtain y where "(y, x) \<in> set (dep_edges nds)"
    by (meson tranclE)
  then have "x \<in> all_keys nds"
    by (auto simp: dep_edges_iff all_keys_def)
  moreover have "need nds (set (order (topoSort_num nds))) x \<noteq> 0"
    using on_cycle_not_ordered [OF assms] topoSort_facts(3) [of nds] \<open>x \<in> all_keys nds\<close> by blast
  ultimately show ?thesis
    using need_nonneg [of nds "set (order (topoSort_num nds))" x] topoSort_facts(4) [of nds]
    by auto
qed

lemma unknown_dependency_ordered:
  assumes "n \<in> set nds" "d \<in> set (deps n)" "d \<notin> node_id ` set nds"
  shows "d \<in> set (order (topoSort_num nds))" "d \<notin> set (cycles (topoSort_num nds))"
proof -
  have k: "d \<in> all_keys nds" using assms(1,2) by (auto simp: all_keys_def)
  have z: "need nds D d = 0" for D using assms(3) by (rule need_no_node)
  show "d \<in> set (order (topoSort_num nds))"
    using topoSort_facts(3) [of nds] k z by blast
  show "d \<notin> set (cycles (topoSort_num nds))"
    using topoSort_facts(4) [of nds] z by auto
qed

lemma acyclic_all_ordered:
  assumes ac: "acyclic (set (dep_edges nds))"
    and known: "\<forall>n\<in>set nds. set (deps n) \<subseteq> node_id ` set nds"
    and nodup: "\<forall>n\<in>set nds. distinct (deps n)"
  shows "set (order (topoSort_num nds)) = node_id ` set nds" "cycles (topoSort_num nds) = []"
proof -
  let ?ord = "order (topoSort_num nds)"
  have wf: "wf (set (dep_edges nds))"
    using ac by (intro finite_acyclic_wf) simp_all
  have keys: "all_keys nds = node_id ` set nds"
    using known by (auto simp: all_keys_def)
  have all: "k \<in> node_id ` set nds \<longrightarrow> k \<in> set ?ord" for k
  proof (induction k rule: wf_induct_rule [OF wf])
    case (1 k)
    show ?case
    proof
      assume k: "k \<in> node_id ` set nds"
      have "\<forall>n\<in>set nds. node_id n = k \<longrightarrow> set (deps n) \<subseteq> set ?ord \<and> distinct (deps n)"
      proof (intro ballI impI conjI subsetI)
        fix n d assume n: "n \<in> set nds" "node_id n = k" and d: "d \<in> set (deps n)"
        then have "(d, k) \<in> set (dep_edges nds)" by (auto simp: dep_edges_iff)
        moreover have "d \<in> node_id ` set nds" using known n(1) d by auto
        ultimately show "d \<in> set ?ord" using 1 by blast
      next
        fix n assume "n \<in> set nds"
        then show "distinct (deps n)" using nodup by simp
      qed
      then have "need nds (set ?ord) k = 0" by (simp add: need_zero_iff)
      with k keys show "k \<in> set ?ord"
        using topoSort_facts(3) [of nds] by blast
    qed
  qed
  show o: "set ?ord = node_id ` set nds"
    using all topoSort_facts(3) [of nds] keys by blast
  have "set (cycles (topoSort_num nds)) = {}"
  proof -
    have "need nds (set ?ord) k = 0" if "k \<in> all_keys nds" for k
      using that topoSort_facts(3) [of nds] o keys by blast
    then show ?thesis
      using topoSort_facts(4) [of nds] by auto
  qed
  then show "cycles (topoSort_num nds) = []" by simp
qed

lemma pos_append: "x \<in> set xs \<Longrightarrow> pos (xs @ ys) x = pos xs x"
  by (simp add: pos_def takeWhile_append1)

lemma pos_less: "x \<in> set xs \<Longrightarrow> pos xs x < length xs"
  unfolding pos_def by (induction xs) auto

lemma pos_first: "x \<notin> set xs \<Longrightarrow> pos (xs @ x # ys) x = length xs"
  unfolding pos_def by (induction xs) auto

lemma ready_nodeps: "deps n = [] \<Longrightarrow> ready ord n = 0"
  by (simp add: ready_def)

lemma ready_stable: "set (deps n) \<subseteq> set L \<Longrightarrow> ready (L @ ys) n = ready L n"
proof -
  assume a: "set (deps n) \<subseteq> set L"
  then have "map (\<lambda>d. Suc (pos (L @ ys) d)) (deps n) = map (\<lambda>d. Suc (pos L d)) (deps n)"
    by (auto simp: pos_append)
  then show ?thesis by (simp add: ready_def)
qed

lemma ready_le: "set (deps n) \<subseteq> set ord \<Longrightarrow> ready ord n \<le> length ord"
proof -
  assume a: "set (deps n) \<subseteq> set ord"
  have "\<forall>v\<in>set (0 # map (\<lambda>d. Suc (pos ord d)) (deps n)). v \<le> length ord"
    using a pos_less [of _ ord] by (auto simp: Suc_le_eq)
  then show ?thesis
    unfolding ready_def by (subst Max_le_iff) auto
qed

lemma ready_new:
  assumes "cur \<notin> set ord" "cur \<in> set (deps n)" "set (deps n) \<subseteq> set (ord @ [cur])"
  shows "ready (ord @ [cur]) n = Suc (length ord)"
proof -
  let ?S = "set (0 # map (\<lambda>d. Suc (pos (ord @ [cur]) d)) (deps n))"
  have 1: "Suc (length ord) \<in> ?S"
    using assms(1,2) pos_first [of cur ord "[]"] by (auto simp: image_iff intro!: bexI [of _ cur])
  have 2: "\<forall>v\<in>?S. v \<le> Suc (length ord)"
    using assms(3) pos_less [of _ "ord @ [cur]"] by (auto simp: Suc_le_eq)
  show ?thesis
    unfolding ready_def using 1 2 by (intro Max_eqI) auto
qed

lemma pos_sorted: "distinct xs \<Longrightarrow> sorted_wrt (\<lambda>x y. pos xs x < pos xs y) xs"
proof -
  assume d: "distinct xs"
  have "pos xs (xs ! i) = i" if "i < length xs" for i
    using that d unfolding pos_def
  proof (induction xs arbitrary: i)
    case Nil
    then show ?case by simp
  next
    case (Cons a xs)
    then show ?case by (cases i) auto
  qed
  then show ?thesis
    by (simp add: sorted_wrt_iff_nth_less)
qed

lemma release_pushed_list:
  assumes "distinct (map node_id ns)" "\<forall>n\<in>set ns. node_id n \<in> set (table_keys t)"
  shows "snd (release_num cur ns t q)
     = q @ map node_id (filter (\<lambda>n. cur \<in> set (deps n) \<and> deg t (node_id n) = 1) ns)"
  using assms
proof (induction ns arbitrary: t q)
  case Nil
  then show ?case by simp
next
  case (Cons n ns)
  show ?case
  proof (cases "cur \<in> set (deps n)")
    case False
    with Cons show ?thesis by simp
  next
    case True
    let ?t1 = "decrement_num (node_id n) t"
    have k: "node_id n \<in> set (table_keys t)" using Cons.prems(2) by simp
    have same: "deg ?t1 (node_id m) = deg t (node_id m)" if "m \<in> set ns" for m
    proof -
      from Cons.prems(1) have "node_id n \<notin> node_id ` set ns" by simp
      with that have "node_id m \<noteq> node_id n" by (metis imageI)
      then show ?thesis using deg_decrement [OF k] by simp
    qed
    have f: "filter (\<lambda>m. cur \<in> set (deps m) \<and> deg ?t1 (node_id m) = 1) ns
           = filter (\<lambda>m. cur \<in> set (deps m) \<and> deg t (node_id m) = 1) ns"
      using same by (intro filter_cong) auto
    have p: "distinct (map node_id ns)" "\<forall>m\<in>set ns. node_id m \<in> set (table_keys ?t1)"
      using Cons.prems by (simp_all add: keys_decrement)
    show ?thesis
      using True Cons.IH [OF p] map_of_decrement [OF k] by (simp add: f)
  qed
qed

lemma enter_ids_keys:
  "distinct (table_keys t @ map node_id ns) \<Longrightarrow>
   table_keys (enter_ids_num ns t) = table_keys t @ map node_id ns"
  unfolding enter_ids_num_def
  by (induction ns arbitrary: t) (auto simp: keys_ensure)

lemma count_loop_keys:
  "k \<in> set (table_keys t) \<Longrightarrow> set ds \<subseteq> set (table_keys t) \<Longrightarrow>
   table_keys (fold (\<lambda>dep t. ensure_num dep (increment_num k t)) ds t) = table_keys t"
  by (induction ds arbitrary: t) (auto simp: keys_ensure keys_increment)

lemma fold_count_deps_keys:
  "\<forall>n\<in>set ns. node_id n \<in> set (table_keys t) \<and> set (deps n) \<subseteq> set (table_keys t) \<Longrightarrow>
   table_keys (fold count_deps_num ns t) = table_keys t"
  by (induction ns arbitrary: t) (auto simp: count_deps_num_def count_loop_keys)

lemma indegrees_keys:
  assumes "distinct (map node_id nds)" "\<forall>n\<in>set nds. set (deps n) \<subseteq> node_id ` set nds"
  shows "table_keys (indegrees_num nds) = map node_id nds"
proof -
  have 1: "table_keys (enter_ids_num nds []) = map node_id nds"
    using enter_ids_keys [of "[]" nds] assms(1) by (simp add: table_keys_def)
  show ?thesis
    unfolding indegrees_num_def
    using fold_count_deps_keys [of nds "enter_ids_num nds []"] assms(2) 1 by auto
qed

lemma filter_entries:
  "distinct (table_keys t) \<Longrightarrow>
   map fst (filter (\<lambda>(k, d). P d) t) = filter (\<lambda>k. P (deg t k)) (table_keys t)"
proof -
  assume d: "distinct (table_keys t)"
  have "filter (\<lambda>(k, d). P d) t = filter (\<lambda>e. P (deg t (fst e))) t"
    using deg_entry [OF d] by (intro filter_cong) auto
  then show ?thesis
    by (simp add: table_keys_def filter_map comp_def)
qed

lemma initial_queue:
  assumes "distinct (map node_id nds)" "\<forall>n\<in>set nds. set (deps n) \<subseteq> node_id ` set nds"
    "\<forall>n\<in>set nds. array_index (node_id n) = None"
  shows "map fst (filter (\<lambda>(k, d). d = 0) (object_entries (indegrees_num nds)))
     = map node_id (filter (\<lambda>n. deps n = []) nds)"
proof -
  let ?t = "indegrees_num nds"
  have k: "table_keys ?t = map node_id nds"
    using assms(1,2) by (rule indegrees_keys)
  then have d: "distinct (table_keys ?t)" using assms(1) by simp
  have "\<forall>k\<in>set (map fst ?t). array_index k = None"
    using k assms(3) by (simp add: table_keys_def)
  then have o: "object_entries ?t = ?t" by (rule object_entries_plain)
  have z: "need nds {} (node_id n) = 0 \<longleftrightarrow> deps n = []" if "n \<in> set nds" for n
  proof -
    have "m = n" if "m \<in> set nds" "node_id m = node_id n" for m
      using that \<open>n \<in> set nds\<close> assms(1) by (auto simp: distinct_map inj_on_def)
    then have "(\<forall>m\<in>set nds. node_id m = node_id n \<longrightarrow> set (deps m) \<subseteq> {} \<and> distinct (deps m))
        \<longleftrightarrow> deps n = []"
      using that by (metis distinct.simps(1) set_empty subset_empty)
    then show ?thesis
      by (simp only: need_zero_iff)
  qed
  have "map fst (filter (\<lambda>(k, d). d = 0) ?t) = filter (\<lambda>k. need nds {} k = 0) (map node_id nds)"
    using filter_entries [OF d, of "\<lambda>d. d = 0"] indegrees_spec [of nds] k by simp
  also have "\<dots> = map node_id (filter (\<lambda>n. need nds {} (node_id n) = 0) nds)"
    by (simp add: filter_map comp_def)
  also have "\<dots> = map node_id (filter (\<lambda>n. deps n = []) nds)"
    using z by (metis (mono_tags, lifting) filter_cong)
  finally show ?thesis unfolding o .
qed

lemma same_node:
  "distinct (map node_id nds) \<Longrightarrow> n \<in> set nds \<Longrightarrow> m \<in> set nds \<Longrightarrow>
   node_id m = node_id n \<Longrightarrow> m = n"
  by (auto simp: distinct_map inj_on_def)

lemma declared_order:
  assumes "distinct (map node_id nds)"
  shows "sorted_wrt (\<lambda>x y. pos (map node_id nds) x < pos (map node_id nds) y)
           (map node_id (filter P nds))"
proof -
  have "sorted_wrt (\<lambda>x y. pos (map node_id nds) x < pos (map node_id nds) y) (map node_id nds)"
    using assms by (rule pos_sorted)
  then have "sorted_wrt (\<lambda>n m. pos (map node_id nds) (node_id n) < pos (map node_id nds) (node_id m)) nds"
    by (simp add: sorted_wrt_map)
  then have "sorted_wrt (\<lambda>n m. pos (map node_id nds) (node_id n) < pos (map node_id nds) (node_id m))
      (filter P nds)"
    by (rule sorted_wrt_filter)
  then show ?thesis by (simp add: sorted_wrt_map)
qed

lemma kahn_inv_deps:
  assumes "kahn_inv nds t queue ord" "x \<in> set (ord @ queue)" "n \<in> set nds" "node_id n = x"
  shows "set (deps n) \<subseteq> set ord"
proof -
  from assms(1) have "\<forall>k. deg t k = need nds (set ord) k"
    unfolding kahn_inv_def by (elim conjE)
  moreover from assms(1) have "set (ord @ queue) = {k \<in> set (table_keys t). deg t k = 0}"
    unfolding kahn_inv_def by (elim conjE)
  ultimately have "need nds (set ord) x = 0" using assms(2) by auto
  then show ?thesis using assms(3,4) by (simp add: need_zero_iff)
qed

lemma fifo_step:
  assumes ids: "distinct (map node_id nds)"
    and K: "kahn_inv nds t (cur # queue) ord"
    and F: "fifo_inv nds (cur # queue) ord"
  shows "fifo_inv nds (snd (release_num cur nds t queue)) (ord @ [cur])"
proof -
  let ?ids = "map node_id nds"
  let ?L = "ord @ cur # queue"
  let ?B = "fifo_before nds (ord @ [cur])"
  define pushed where
    "pushed = map node_id (filter (\<lambda>n. cur \<in> set (deps n) \<and> deg t (node_id n) = 1) nds)"
  from K have keys: "node_id ` set nds \<subseteq> set (table_keys t)"
    unfolding kahn_inv_def by (elim conjE)
  from K have "distinct (ord @ cur # queue)"
    unfolding kahn_inv_def by (elim conjE)
  then have cur: "cur \<notin> set ord" by simp
  have R: "snd (release_num cur nds t queue) = queue @ pushed"
    unfolding pushed_def using ids keys by (intro release_pushed_list) auto
  note K' = kahn_inv_step [OF K, THEN conjunct1]
  have old: "set (deps n) \<subseteq> set ord" if "x \<in> set ?L" "n \<in> set nds" "node_id n = x" for x n
    using kahn_inv_deps [OF K that] .
  have new: "cur \<in> set (deps m) \<and> set (deps m) \<subseteq> set (ord @ [cur])"
    if "y \<in> set pushed" "m \<in> set nds" "node_id m = y" for y m
  proof -
    from that(1) obtain m0 where m0: "m0 \<in> set nds" "node_id m0 = y" "cur \<in> set (deps m0)"
      by (auto simp: pushed_def)
    with that(2,3) have "m = m0" using same_node [OF ids] by metis
    moreover have "y \<in> set ((ord @ [cur]) @ snd (release_num cur nds t queue))"
      using that(1) R by simp
    ultimately show ?thesis
      using kahn_inv_deps [OF K' _ that(2,3)] m0(3) by simp
  qed
  have r_old: "ready (ord @ [cur]) n = ready ord n \<and> ready ord n \<le> length ord"
    if "x \<in> set ?L" "n \<in> set nds" "node_id n = x" for x n
    using old [OF that] ready_stable [of n ord "[cur]"] ready_le [of n ord] by simp
  have r_new: "ready (ord @ [cur]) m = Suc (length ord)"
    if "y \<in> set pushed" "m \<in> set nds" "node_id m = y" for y m
    using new [OF that] ready_new [OF cur, of m] by simp
  have 1: "sorted_wrt ?B ?L"
  proof -
    from F have "sorted_wrt (fifo_before nds ord) ?L" by (simp add: fifo_inv_def)
    moreover have "?B x y" if "x \<in> set ?L" "y \<in> set ?L" "fifo_before nds ord x y" for x y
      using that(3) r_old [OF that(1)] r_old [OF that(2)] unfolding fifo_before_def by metis
    ultimately show ?thesis by (rule sorted_wrt_mono_rel [rotated])
  qed
  have 2: "sorted_wrt ?B pushed"
  proof -
    have "sorted_wrt (\<lambda>x y. pos ?ids x < pos ?ids y) pushed"
      unfolding pushed_def using ids by (rule declared_order)
    moreover have "?B x y" if "x \<in> set pushed" "y \<in> set pushed" "pos ?ids x < pos ?ids y" for x y
      using that(3) r_new [OF that(1)] r_new [OF that(2)] unfolding fifo_before_def by metis
    ultimately show ?thesis by (rule sorted_wrt_mono_rel [rotated])
  qed
  have 3: "\<forall>x\<in>set ?L. \<forall>y\<in>set pushed. ?B x y"
  proof (intro ballI)
    fix x y assume x: "x \<in> set ?L" and y: "y \<in> set pushed"
    show "?B x y"
      unfolding fifo_before_def
    proof (intro ballI impI)
      fix n m assume "n \<in> set nds" "m \<in> set nds" "node_id n = x \<and> node_id m = y"
      then have "ready (ord @ [cur]) n \<le> length ord" "ready (ord @ [cur]) m = Suc (length ord)"
        using r_old [OF x, of n] r_new [OF y, of m] by simp_all
      then show "ready (ord @ [cur]) n < ready (ord @ [cur]) m
        \<or> (ready (ord @ [cur]) n = ready (ord @ [cur]) m \<and> pos ?ids x < pos ?ids y)"
        by simp
    qed
  qed
  have "sorted_wrt ?B (?L @ pushed)"
    using 1 2 3 by (simp only: sorted_wrt_append) simp
  then show ?thesis
    unfolding fifo_inv_def R by simp
qed

lemma fifo_final:
  assumes "distinct (map node_id nds)" "kahn_inv nds t queue ord" "fifo_inv nds queue ord"
  shows "fifo_inv nds [] (snd (kahn_num nds t queue ord))"
  using assms
proof (induction nds t queue ord rule: kahn_num.induct)
  case (1 nds t ord)
  then show ?case by simp
next
  case (2 nds t cur queue ord)
  from kahn_inv_step [OF "2.prems"(2)] fifo_step [OF "2.prems"] "2.prems"(1) "2.IH"
  show ?case by simp
qed

lemma fifo_init:
  assumes "distinct (map node_id nds)"
  shows "fifo_inv nds (map node_id (filter (\<lambda>n. deps n = []) nds)) []"
proof -
  let ?ids = "map node_id nds"
  let ?q = "map node_id (filter (\<lambda>n. deps n = []) nds)"
  have "sorted_wrt (\<lambda>x y. pos ?ids x < pos ?ids y) ?q"
    using assms by (rule declared_order)
  moreover have "fifo_before nds [] x y" if "x \<in> set ?q" "y \<in> set ?q" "pos ?ids x < pos ?ids y" for x y
    unfolding fifo_before_def
  proof (intro ballI impI)
    fix n m assume nm: "n \<in> set nds" "m \<in> set nds" "node_id n = x \<and> node_id m = y"
    from that(1) obtain n0 where "n0 \<in> set nds" "node_id n0 = x" "deps n0 = []" by auto
    with nm have "deps n = []" using same_node [OF assms] by metis
    moreover from that(2) obtain m0 where "m0 \<in> set nds" "node_id m0 = y" "deps m0 = []" by auto
    with nm have "deps m = []" using same_node [OF assms] by metis
    ultimately show "ready [] n < ready [] m \<or> (ready [] n = ready [] m \<and> pos ?ids x < pos ?ids y)"
      using that(3) by (simp add: ready_nodeps)
  qed
  ultimately have "sorted_wrt (fifo_before nds []) ?q"
    by (rule sorted_wrt_mono_rel [rotated])
  then show ?thesis by (simp add: fifo_inv_def)
qed

lemma topoSort_fifo:
  assumes "distinct (map node_id nds)" "\<forall>n\<in>set nds. set (deps n) \<subseteq> node_id ` set nds"
    "\<forall>n\<in>set nds. array_index (node_id n) = None"
  shows "sorted_wrt (fifo_before nds (order (topoSort_num nds))) (order (topoSort_num nds))"
proof -
  note q = initial_queue [OF assms]
  have "fifo_inv nds [] (order (topoSort_num nds))"
    unfolding topoSort_unfold
    using fifo_final [OF assms(1) kahn_inv_init [of nds]] fifo_init [OF assms(1)]
    unfolding q by simp
  then show ?thesis by (simp add: fifo_inv_def)
qed

section \<open>The sequencer and inherited names\<close>

subsection \<open>Ordinary identifiers: the table holds numbers only\<close>

lemma map_of_embed: "map_of (embed t) k = map_option Deg (map_of t k)"
  by (induction t) (auto simp: embed_def)

lemma update_embed: "AList.update k (Deg d) (embed t) = embed (AList.update k d t)"
  by (induction t) (auto simp: embed_def)

lemma look_embed: "\<not> inherited rt k \<Longrightarrow> look rt (embed t) k = map_option Deg (map_of t k)"
  by (simp add: look_def map_of_embed split: option.splits)

lemma store_embed: "\<not> inherited rt k \<Longrightarrow> store rt k (Deg d) (embed t) = embed (AList.update k d t)"
  by (simp add: store_def update_embed)

lemma ensure_embed: "\<not> inherited rt k \<Longrightarrow> ensure rt k (embed t) = embed (ensure_num k t)"
  by (simp add: ensure_def ensure_num_def look_embed store_embed split: option.splits)

lemma increment_embed: "\<not> inherited rt k \<Longrightarrow> increment rt k (embed t) = embed (increment_num k t)"
  by (simp add: increment_def increment_num_def look_embed store_embed split: option.splits)

lemma decrement_embed:
  "\<not> inherited rt k \<Longrightarrow> k \<in> set (table_keys t) \<Longrightarrow>
   decrement rt k (embed t) = embed (decrement_num k t)"
  by (auto simp: decrement_def decrement_num_def look_embed store_embed map_of_None_keys
      split: option.splits)

lemma enter_ids_embed:
  "\<forall>n\<in>set ns. \<not> inherited rt (node_id n) \<Longrightarrow>
   enter_ids rt ns (embed t) = embed (enter_ids_num ns t)"
  unfolding enter_ids_def enter_ids_num_def
  by (induction ns arbitrary: t) (simp_all add: ensure_embed)

lemma count_loop_embed:
  "\<not> inherited rt k \<Longrightarrow> \<forall>d\<in>set ds. \<not> inherited rt d \<Longrightarrow>
   fold (\<lambda>dep t. ensure rt dep (increment rt k t)) ds (embed t)
     = embed (fold (\<lambda>dep t. ensure_num dep (increment_num k t)) ds t)"
  by (induction ds arbitrary: t) (simp_all add: ensure_embed increment_embed)

lemma indegrees_embed:
  assumes "ordinary rt nds"
  shows "indegrees rt nds = embed (indegrees_num nds)"
proof -
  have a: "\<forall>n\<in>set nds. \<not> inherited rt (node_id n)"
    and b: "\<forall>n\<in>set nds. \<forall>d\<in>set (deps n). \<not> inherited rt d"
    using assms by (auto simp: ordinary_def all_keys_def)
  have f: "fold (count_deps rt) ns (embed t) = embed (fold count_deps_num ns t)"
    if "set ns \<subseteq> set nds" for ns t
    using that
  proof (induction ns arbitrary: t)
    case Nil
    then show ?case by simp
  next
    case (Cons n ns)
    then have "count_deps rt n (embed t) = embed (count_deps_num n t)"
      unfolding count_deps_def count_deps_num_def
      using a b by (intro count_loop_embed) auto
    then show ?case using Cons by simp
  qed
  have "enter_ids rt nds [] = embed (enter_ids_num nds [])"
    using enter_ids_embed [OF a, of "[]"] by (simp add: embed_def)
  then show ?thesis
    unfolding indegrees_def indegrees_num_def using f [of nds] by simp
qed

lemma keys_release_num: "table_keys (fst (release_num cur ns t q)) = table_keys t"
  by (induction ns arbitrary: t q) (simp_all add: keys_decrement)

lemma release_embed:
  assumes "\<forall>n\<in>set ns. \<not> inherited rt (node_id n) \<and> node_id n \<in> set (table_keys t)"
  shows "release rt cur ns (embed t) q
     = (embed (fst (release_num cur ns t q)), snd (release_num cur ns t q))"
  using assms
proof (induction ns arbitrary: t q)
  case Nil
  then show ?case by simp
next
  case (Cons n ns)
  then have n: "\<not> inherited rt (node_id n)" "node_id n \<in> set (table_keys t)" by simp_all
  note d = decrement_embed [OF n]
  have l: "look rt (embed (decrement_num (node_id n) t)) (node_id n) = Some (Deg 0)
      \<longleftrightarrow> map_of (decrement_num (node_id n) t) (node_id n) = Some 0"
    by (auto simp: look_embed [OF n(1)])
  have k: "\<forall>m\<in>set ns. \<not> inherited rt (node_id m)
      \<and> node_id m \<in> set (table_keys (decrement_num (node_id n) t))"
    using Cons.prems by (simp add: keys_decrement)
  show ?case
  proof (cases "cur \<in> set (deps n)")
    case True
    then show ?thesis
      using Cons.IH [OF k] by (simp add: d l)
  next
    case False
    then show ?thesis
      using Cons.IH [of t q] Cons.prems by simp
  qed
qed

lemma kahn_embed:
  assumes "\<forall>n\<in>set nds. \<not> inherited rt (node_id n) \<and> node_id n \<in> set (table_keys t)"
  shows "kahn rt nds (embed t) q ord = (embed (fst (kahn_num nds t q ord)), snd (kahn_num nds t q ord))"
  using assms
proof (induction nds t q ord rule: kahn_num.induct)
  case (1 nds t ord)
  then show ?case by simp
next
  case (2 nds t cur queue ord)
  have k: "\<forall>n\<in>set nds. \<not> inherited rt (node_id n)
      \<and> node_id n \<in> set (table_keys (fst (release_num cur nds t queue)))"
    using "2.prems" by (simp add: keys_release_num)
  show ?case
    using "2.IH" [OF k] release_embed [OF "2.prems", of cur queue] by simp
qed

lemma object_entries_embed: "object_entries (embed t) = embed (object_entries t)"
proof -
  have f: "filter P (embed t) = embed (filter (\<lambda>(k, d). P (k, Deg d)) t)" for P
    by (induction t) (auto simp: embed_def)
  have s: "sort_key (\<lambda>(k, v). g k) (embed u) = embed (sort_key (\<lambda>(k, v). g k) u)" for g :: "string \<Rightarrow> nat" and u
  proof (induction u)
    case Nil
    then show ?case by (simp add: embed_def)
  next
    case (Cons a u)
    have i: "insort_key (\<lambda>(k, v). g k) (fst a, Deg (snd a)) (embed w)
        = embed (insort_key (\<lambda>(k, v). g k) a w)" for w
      by (induction w) (auto simp: embed_def split: prod.splits)
    from Cons show ?case
      by (cases a) (simp add: i [of "sort_key (\<lambda>(k, v). g k) u", simplified] embed_def [of "_ # _"],
        metis (no_types, lifting) embed_def i fst_conv snd_conv)
  qed
  show ?thesis
    unfolding object_entries_def f s
    by (simp add: embed_def case_prod_beta)
qed

lemma filter_embed:
  "map fst (filter (\<lambda>(k, d). d = Deg 0) (embed t)) = map fst (filter (\<lambda>(k, d). d = 0) t)"
  "map fst (filter (\<lambda>(k, d). positive d) (embed t)) = map fst (filter (\<lambda>(k, d). d > 0) t)"
  by (induction t) (auto simp: embed_def)

text \<open>On a workflow with ordinary identifiers the sequencer works on numbers only.\<close>

lemma topoSort_ordinary:
  assumes "ordinary rt nds"
  shows "topoSort rt nds = topoSort_num nds"
proof -
  have k: "\<forall>n\<in>set nds. \<not> inherited rt (node_id n) \<and> node_id n \<in> set (table_keys (indegrees_num nds))"
    using assms indegrees_spec [of nds] by (auto simp: ordinary_def all_keys_def)
  show ?thesis
    unfolding topoSort_def topoSort_num_def Let_def indegrees_embed [OF assms]
      object_entries_embed filter_embed kahn_embed [OF k]
    by (simp add: case_prod_beta object_entries_embed filter_embed)
qed

subsection \<open>No inherited name is ever emitted\<close>

lemma update_cases:
  "(k', v') \<in> set (AList.update k v t) \<Longrightarrow> (k', v') \<in> set t \<or> (k' = k \<and> v' = v)"
  by (induction t) (auto split: if_splits)

lemma look_sound: "sound rt t \<Longrightarrow> look rt t k = Some (Deg d) \<Longrightarrow> \<not> inherited rt k"
  by (auto simp: sound_def look_def split: option.splits if_splits dest: map_of_SomeD)

lemma sound_store:
  "sound rt t \<Longrightarrow> (\<And>d. v = Deg d \<Longrightarrow> \<not> inherited rt k) \<Longrightarrow> sound rt (store rt k v t)"
  unfolding sound_def store_def by (auto dest: update_cases)

lemma sound_ensure: "sound rt t \<Longrightarrow> sound rt (ensure rt k t)"
  unfolding ensure_def
  by (auto intro!: sound_store simp: look_def split: option.splits if_splits)

lemma look_None: "look rt t k = None \<Longrightarrow> \<not> inherited rt k"
  by (auto simp: look_def split: option.splits if_splits)

lemma sound_increment:
  assumes "sound rt t"
  shows "sound rt (increment rt k t)"
  unfolding increment_def
proof (rule sound_store [OF assms])
  fix d
  assume "(case look rt t k of None \<Rightarrow> Deg 1 | Some (Deg d) \<Rightarrow> Deg (d + 1) | Some Junk \<Rightarrow> Junk) = Deg d"
  then consider "look rt t k = None" | x where "look rt t k = Some (Deg x)"
    by (auto split: option.splits degree.splits)
  then show "\<not> inherited rt k"
    using look_None look_sound [OF assms] by cases blast+
qed

lemma sound_decrement: "sound rt t \<Longrightarrow> sound rt (decrement rt k t)"
  unfolding decrement_def
  by (rule sound_store) (auto dest: look_sound split: option.splits degree.splits)

lemma sound_indegrees: "sound rt (indegrees rt nds)"
proof -
  have 1: "sound rt t \<Longrightarrow> sound rt (enter_ids rt ns t)" for ns t
    unfolding enter_ids_def by (induction ns arbitrary: t) (simp_all add: sound_ensure)
  have "sound rt t \<Longrightarrow> sound rt (fold (\<lambda>dep t. ensure rt dep (increment rt k t)) ds t)" for ds k t
    by (induction ds arbitrary: t) (simp_all add: sound_ensure sound_increment)
  then have 2: "sound rt t \<Longrightarrow> sound rt (count_deps rt n t)" for n t
    unfolding count_deps_def .
  have 3: "sound rt t \<Longrightarrow> sound rt (fold (count_deps rt) ns t)" for ns t
    by (induction ns arbitrary: t) (simp_all add: 2)
  have "sound rt []" by (simp add: sound_def)
  then show ?thesis unfolding indegrees_def by (intro 3 1)
qed

lemma sound_release:
  assumes "sound rt t" "\<forall>k\<in>set q. \<not> inherited rt k"
  shows "sound rt (fst (release rt cur ns t q)) \<and> (\<forall>k\<in>set (snd (release rt cur ns t q)). \<not> inherited rt k)"
  using assms
proof (induction ns arbitrary: t q)
  case Nil
  then show ?case by simp
next
  case (Cons n ns)
  show ?case
  proof (cases "cur \<in> set (deps n)")
    case False
    then show ?thesis using Cons by simp
  next
    case True
    let ?t = "decrement rt (node_id n) t"
    have s: "sound rt ?t" using Cons.prems(1) by (rule sound_decrement)
    have q: "\<forall>k\<in>set (if look rt ?t (node_id n) = Some (Deg 0) then q @ [node_id n] else q).
        \<not> inherited rt k"
      using Cons.prems(2) look_sound [OF s] by auto
    show ?thesis using True Cons.IH [OF s q] by simp
  qed
qed

lemma sound_kahn:
  assumes "sound rt t" "\<forall>k\<in>set q. \<not> inherited rt k" "\<forall>k\<in>set ord. \<not> inherited rt k"
  shows "\<forall>k\<in>set (snd (kahn rt nds t q ord)). \<not> inherited rt k"
  using assms
proof (induction rt nds t q ord rule: kahn.induct)
  case (1 rt nds t ord)
  then show ?case by simp
next
  case (2 rt nds t cur queue ord)
  from "2.prems" have q: "\<forall>k\<in>set queue. \<not> inherited rt k" and c: "\<not> inherited rt cur"
    by simp_all
  note r = sound_release [OF "2.prems"(1) q, of cur nds]
  have o: "\<forall>k\<in>set (ord @ [cur]). \<not> inherited rt k" using "2.prems"(3) c by simp
  show ?case
    using "2.IH" [OF r [THEN conjunct1] r [THEN conjunct2] o] by simp
qed

text \<open>
  The identifiers that \<^verbatim>\<open>topoSort\<close> emits are keys that the table holds with the number
  zero, and the table holds a number only under a key that is not inherited.
\<close>

lemma order_not_inherited: "k \<in> set (order (topoSort rt nds)) \<Longrightarrow> \<not> inherited rt k"
proof -
  let ?t = "indegrees rt nds"
  let ?q = "map fst (filter (\<lambda>(k, deg). deg = Deg 0) (object_entries ?t))"
  have s: "sound rt ?t" by (rule sound_indegrees)
  have "set (object_entries ?t) = set ?t" by (rule set_object_entries)
  then have q: "\<forall>k\<in>set ?q. \<not> inherited rt k"
    using s by (auto simp: sound_def)
  have "order (topoSort rt nds) = snd (kahn rt nds ?t ?q [])"
    by (simp add: topoSort_def Let_def case_prod_beta)
  then show "k \<in> set (order (topoSort rt nds)) \<Longrightarrow> \<not> inherited rt k"
    using sound_kahn [OF s q, of "[]" nds] by simp
qed

subsection \<open>A dependency that no node has\<close>

lemma store_other: "k \<noteq> d \<Longrightarrow> map_of (store rt k v t) d = map_of t d"
  by (simp add: store_def update_conv')

lemma ensure_other: "k \<noteq> d \<Longrightarrow> map_of (ensure rt k t) d = map_of t d"
  by (simp add: ensure_def store_other split: option.splits)

lemma increment_other: "k \<noteq> d \<Longrightarrow> map_of (increment rt k t) d = map_of t d"
  by (simp add: increment_def store_other)

lemma decrement_other: "k \<noteq> d \<Longrightarrow> map_of (decrement rt k t) d = map_of t d"
  by (simp add: decrement_def store_other)

lemma ensure_zero:
  assumes "\<not> inherited rt d" "map_of t d = None \<or> map_of t d = Some (Deg 0)"
  shows "map_of (ensure rt d t) d = Some (Deg 0)"
  using assms by (auto simp: ensure_def look_def store_def update_conv' split: option.splits)

lemma ensure_keeps_zero: "map_of t d = Some (Deg 0) \<Longrightarrow> map_of (ensure rt k t) d = Some (Deg 0)"
  by (cases "k = d") (simp_all add: ensure_other, simp add: ensure_def look_def)

lemma count_loop_zero:
  assumes "\<not> inherited rt d" "k \<noteq> d"
    and "map_of t d = None \<or> map_of t d = Some (Deg 0)"
  shows "(map_of (fold (\<lambda>dep t. ensure rt dep (increment rt k t)) ds t) d = None
            \<or> map_of (fold (\<lambda>dep t. ensure rt dep (increment rt k t)) ds t) d = Some (Deg 0))
     \<and> (d \<in> set ds \<or> map_of t d = Some (Deg 0)
          \<longrightarrow> map_of (fold (\<lambda>dep t. ensure rt dep (increment rt k t)) ds t) d = Some (Deg 0))"
  using assms(3)
proof (induction ds arbitrary: t)
  case Nil
  then show ?case by simp
next
  case (Cons a ds)
  let ?t = "ensure rt a (increment rt k t)"
  have i: "map_of (increment rt k t) d = map_of t d"
    using assms(2) by (rule increment_other)
  have p: "map_of ?t d = None \<or> map_of ?t d = Some (Deg 0)"
    using Cons.prems i ensure_zero [OF assms(1), of "increment rt k t"]
      ensure_other [of a d rt "increment rt k t"]
    by (cases "a = d") auto
  have q: "map_of ?t d = Some (Deg 0)" if "a = d \<or> map_of t d = Some (Deg 0)"
    using that Cons.prems i ensure_zero [OF assms(1), of "increment rt k t"]
      ensure_keeps_zero [of "increment rt k t" d rt a]
    by auto
  show ?case
    using Cons.IH [OF p] q by auto
qed

lemma indegrees_zero:
  assumes "n \<in> set nds" "d \<in> set (deps n)" "d \<notin> node_id ` set nds" "\<not> inherited rt d"
  shows "map_of (indegrees rt nds) d = Some (Deg 0)"
proof -
  have e: "map_of (enter_ids rt ns t) d = map_of t d" if "d \<notin> node_id ` set ns" for ns t
    using that unfolding enter_ids_def
    by (induction ns arbitrary: t) (auto simp: ensure_other)
  have c: "(map_of (count_deps rt m t) d = None \<or> map_of (count_deps rt m t) d = Some (Deg 0))
      \<and> (d \<in> set (deps m) \<or> map_of t d = Some (Deg 0)
            \<longrightarrow> map_of (count_deps rt m t) d = Some (Deg 0))"
    if "node_id m \<noteq> d" "map_of t d = None \<or> map_of t d = Some (Deg 0)" for m t
    unfolding count_deps_def using count_loop_zero [OF assms(4) that] .
  have f: "(map_of (fold (count_deps rt) ns t) d = None
            \<or> map_of (fold (count_deps rt) ns t) d = Some (Deg 0))
      \<and> ((\<exists>m\<in>set ns. d \<in> set (deps m)) \<or> map_of t d = Some (Deg 0)
            \<longrightarrow> map_of (fold (count_deps rt) ns t) d = Some (Deg 0))"
    if "d \<notin> node_id ` set ns" "map_of t d = None \<or> map_of t d = Some (Deg 0)" for ns t
    using that
  proof (induction ns arbitrary: t)
    case Nil
    then show ?case by simp
  next
    case (Cons m ns)
    from Cons.prems(1) have m: "node_id m \<noteq> d" and ns: "d \<notin> node_id ` set ns" by auto
    note C = c [OF m Cons.prems(2)]
    show ?case
      using Cons.IH [OF ns C [THEN conjunct1]] C by auto
  qed
  have "map_of (enter_ids rt nds []) d = None"
    using e [OF assms(3), of "[]"] by simp
  then show ?thesis
    unfolding indegrees_def using f [OF assms(3), of "enter_ids rt nds []"] assms(1,2) by auto
qed

lemma release_other:
  "d \<notin> node_id ` set ns \<Longrightarrow> map_of (fst (release rt cur ns t q)) d = map_of t d"
proof (induction ns arbitrary: t q)
  case Nil
  then show ?case by simp
next
  case (Cons n ns)
  then show ?case by (auto simp: decrement_other)
qed

lemma release_queue: "set q \<subseteq> set (snd (release rt cur ns t q))"
proof (induction ns arbitrary: t q)
  case Nil
  then show ?case by simp
next
  case (Cons n ns)
  show ?case
  proof (cases "cur \<in> set (deps n)")
    case False
    then show ?thesis using Cons.IH by simp
  next
    case True
    let ?q = "if look rt (decrement rt (node_id n) t) (node_id n) = Some (Deg 0)
              then q @ [node_id n] else q"
    have "set q \<subseteq> set ?q" by auto
    also have "\<dots> \<subseteq> set (snd (release rt cur ns (decrement rt (node_id n) t) ?q))"
      by (rule Cons.IH)
    finally show ?thesis using True by simp
  qed
qed

lemma kahn_other:
  "d \<notin> node_id ` set nds \<Longrightarrow> map_of (fst (kahn rt nds t q ord)) d = map_of t d"
  by (induction rt nds t q ord rule: kahn.induct) (simp_all add: release_other)

lemma kahn_emits: "set q \<union> set ord \<subseteq> set (snd (kahn rt nds t q ord))"
proof (induction rt nds t q ord rule: kahn.induct)
  case (1 rt nds t ord)
  then show ?case by simp
next
  case (2 rt nds t cur queue ord)
  have "set (cur # queue) \<union> set ord \<subseteq> set (snd (release rt cur nds t queue)) \<union> set (ord @ [cur])"
    using release_queue [of queue rt cur nds t] by auto
  also have "\<dots> \<subseteq> set (snd (kahn rt nds t (cur # queue) ord))"
    using "2.IH" by simp
  finally show ?case .
qed

lemma map_of_entries: "map_of t d = Some v \<Longrightarrow> (d, w) \<in> set t \<Longrightarrow> distinct (map fst t) \<Longrightarrow> w = v"
  by (metis map_of_eq_Some_iff option.inject)

lemma distinct_store: "distinct (map fst t) \<Longrightarrow> distinct (map fst (store rt k v t))"
  by (simp add: store_def distinct_update)

lemma distinct_indegrees: "distinct (map fst (indegrees rt nds))"
proof -
  have e: "distinct (map fst t) \<Longrightarrow> distinct (map fst (ensure rt k t))" for k t
    by (simp add: ensure_def distinct_store split: option.splits)
  have i: "distinct (map fst t) \<Longrightarrow> distinct (map fst (increment rt k t))" for k t
    by (simp add: increment_def distinct_store)
  have 1: "distinct (map fst t) \<Longrightarrow> distinct (map fst (enter_ids rt ns t))" for ns t
    unfolding enter_ids_def by (induction ns arbitrary: t) (simp_all add: e)
  have "distinct (map fst t) \<Longrightarrow> distinct (map fst (fold (\<lambda>dep t. ensure rt dep (increment rt k t)) ds t))"
    for ds k t
    by (induction ds arbitrary: t) (simp_all add: e i)
  then have 2: "distinct (map fst t) \<Longrightarrow> distinct (map fst (count_deps rt n t))" for n t
    unfolding count_deps_def .
  have 3: "distinct (map fst t) \<Longrightarrow> distinct (map fst (fold (count_deps rt) ns t))" for ns t
    by (induction ns arbitrary: t) (simp_all add: 2)
  show ?thesis unfolding indegrees_def by (intro 3 1) simp
qed

lemma distinct_kahn: "distinct (map fst t) \<Longrightarrow> distinct (map fst (fst (kahn rt nds t q ord)))"
proof (induction rt nds t q ord rule: kahn.induct)
  case (1 rt nds t ord)
  then show ?case by simp
next
  case (2 rt nds t cur queue ord)
  have r: "distinct (map fst u) \<Longrightarrow> distinct (map fst (fst (release rt cur ns u p)))" for ns u p
    by (induction ns arbitrary: u p) (simp_all add: decrement_def distinct_store)
  show ?case using "2.IH" r [OF "2.prems"] by simp
qed

text \<open>
  A name in a \<^verbatim>\<open>dependsOn\<close> list that is the identifier of no node and not the name of an
  inherited member is emitted and is not in the cycle set, whatever the other
  identifiers of the workflow are.
\<close>

lemma unknown_dependency_emitted:
  assumes "n \<in> set nds" "d \<in> set (deps n)" "d \<notin> node_id ` set nds" "\<not> inherited rt d"
  shows "d \<in> set (order (topoSort rt nds))" "d \<notin> set (cycles (topoSort rt nds))"
proof -
  let ?t = "indegrees rt nds"
  let ?q = "map fst (filter (\<lambda>(k, deg). deg = Deg 0) (object_entries ?t))"
  let ?k = "kahn rt nds ?t ?q []"
  have z: "map_of ?t d = Some (Deg 0)" by (rule indegrees_zero [OF assms])
  then have "(d, Deg 0) \<in> set (object_entries ?t)"
    by (simp add: set_object_entries map_of_SomeD)
  then have "d \<in> set ?q" by force
  then have "d \<in> set (snd ?k)" using kahn_emits [of ?q "[]" rt nds ?t] by auto
  then show "d \<in> set (order (topoSort rt nds))"
    by (simp add: topoSort_def Let_def case_prod_beta)
  have z': "map_of (fst ?k) d = Some (Deg 0)"
    using z kahn_other [OF assms(3), of rt ?t ?q "[]"] by simp
  have dist: "distinct (map fst (fst ?k))"
    by (intro distinct_kahn distinct_indegrees)
  have "\<not> positive v" if "(d, v) \<in> set (object_entries (fst ?k))" for v
    using map_of_entries [OF z' _ dist, of v] that by (simp add: set_object_entries)
  then show "d \<notin> set (cycles (topoSort rt nds))"
    by (auto simp: topoSort_def Let_def case_prod_beta)
qed

section \<open>The sequencer: valid orders\<close>

lemma pos_nth: "distinct xs \<Longrightarrow> i < length xs \<Longrightarrow> pos xs (xs ! i) = i"
  unfolding pos_def
proof (induction xs arbitrary: i)
  case Nil
  then show ?case by simp
next
  case (Cons a xs)
  then show ?case by (cases i) auto
qed

lemma order_after_dependencies:
  assumes "n \<in> set nds" "d \<in> set (deps n)" "node_id n \<in> set (order (topoSort_num nds))"
  shows "pos (order (topoSort_num nds)) d < pos (order (topoSort_num nds)) (node_id n)"
proof -
  let ?ord = "order (topoSort_num nds)"
  have dist: "distinct ?ord" by (rule topoSort_facts(1))
  from assms(3) obtain i where i: "i < length ?ord" "?ord ! i = node_id n"
    by (auto simp: in_set_conv_nth)
  have "(d, node_id n) \<in> set (dep_edges nds)"
    using assms(1,2) by (auto simp: dep_edges_iff)
  from order_edge_before [OF this i] obtain j where j: "j < i" "?ord ! j = d" by blast
  have "pos ?ord d = j" using pos_nth [OF dist, of j] j i(1) by simp
  moreover have "pos ?ord (node_id n) = i" using pos_nth [OF dist i(1)] i(2) by simp
  ultimately show ?thesis using j(1) by simp
qed

text \<open>
  Claim C1, as amended. Let the node identifiers of a workflow be distinct, let none of
  them be the name of a member that every object inherits (such as \<^verbatim>\<open>constructor\<close>), let
  every entry of every \<^verbatim>\<open>dependsOn\<close> list name a node of the workflow, let no \<^verbatim>\<open>dependsOn\<close>
  list repeat an entry, and let the dependency graph be acyclic. Then \<^verbatim>\<open>topoSort\<close> returns
  an empty cycle set and an order that holds every node identifier exactly once, in which
  every node comes after each node named in its \<^verbatim>\<open>dependsOn\<close> list. If moreover no
  identifier is an array index (a canonical decimal numeral), the order is first in,
  first out: a node that became ready earlier is emitted earlier, and nodes that became
  ready together are emitted in the order of their declaration.
\<close>

theorem topoSort_valid_order:
  assumes "distinct (map node_id nds)"
    and "acyclic (set (dep_edges nds))"
    and "\<forall>n\<in>set nds. set (deps n) \<subseteq> node_id ` set nds"
    and "\<forall>n\<in>set nds. distinct (deps n)"
    and "\<forall>n\<in>set nds. \<not> inherited rt (node_id n)"
  shows "cycles (topoSort rt nds) = []
     \<and> distinct (order (topoSort rt nds))
     \<and> set (order (topoSort rt nds)) = node_id ` set nds
     \<and> length (order (topoSort rt nds)) = length nds
     \<and> (\<forall>n\<in>set nds. \<forall>d\<in>set (deps n).
           pos (order (topoSort rt nds)) d < pos (order (topoSort rt nds)) (node_id n))
     \<and> ((\<forall>n\<in>set nds. array_index (node_id n) = None) \<longrightarrow>
          (\<forall>i j. i < j \<and> j < length (order (topoSort rt nds)) \<longrightarrow>
             fifo_before nds (order (topoSort rt nds))
               (order (topoSort rt nds) ! i) (order (topoSort rt nds) ! j)))"
proof -
  have "ordinary rt nds"
    using assms(3,5) by (auto simp: ordinary_def all_keys_def)
  then have n: "topoSort rt nds = topoSort_num nds" by (rule topoSort_ordinary)
  let ?ord = "order (topoSort_num nds)"
  note A = acyclic_all_ordered [OF assms(2,3,4)]
  have d: "distinct ?ord" by (rule topoSort_facts(1))
  have "length ?ord = card (set ?ord)" using d by (simp add: distinct_card)
  also have "\<dots> = card (set (map node_id nds))" using A(1) by simp
  also have "\<dots> = length nds" using assms(1) distinct_card by fastforce
  finally have len: "length ?ord = length nds" .
  have after: "\<forall>n\<in>set nds. \<forall>d\<in>set (deps n). pos ?ord d < pos ?ord (node_id n)"
    using order_after_dependencies [of _ nds] A(1) by blast
  have fifo: "\<forall>i j. i < j \<and> j < length ?ord \<longrightarrow> fifo_before nds ?ord (?ord ! i) (?ord ! j)"
    if "\<forall>n\<in>set nds. array_index (node_id n) = None"
    using topoSort_fifo [OF assms(1,3) that] by (simp add: sorted_wrt_iff_nth_less)
  from A d len after fifo show ?thesis unfolding n by blast
qed

theorem topoSort_valid_order_witness:
  "cycles (topoSort sample_runtime wf4) = []
     \<and> distinct (order (topoSort sample_runtime wf4))
     \<and> set (order (topoSort sample_runtime wf4)) = node_id ` set wf4
     \<and> length (order (topoSort sample_runtime wf4)) = length wf4
     \<and> pos (order (topoSort sample_runtime wf4)) ''fetch'' < pos (order (topoSort sample_runtime wf4)) ''join''
     \<and> pos (order (topoSort sample_runtime wf4)) ''meta'' < pos (order (topoSort sample_runtime wf4)) ''join''
     \<and> pos (order (topoSort sample_runtime wf4)) ''join'' < pos (order (topoSort sample_runtime wf4)) ''report''
     \<and> pos (order (topoSort sample_runtime wf4)) ''fetch'' < pos (order (topoSort sample_runtime wf4)) ''report''
     \<and> fifo_before wf4 (order (topoSort sample_runtime wf4))
          (order (topoSort sample_runtime wf4) ! 0) (order (topoSort sample_runtime wf4) ! 1)
     \<and> fifo_before wf4 (order (topoSort sample_runtime wf4))
          (order (topoSort sample_runtime wf4) ! 1) (order (topoSort sample_runtime wf4) ! 3)"
proof -
  have 1: "distinct (map node_id wf4)"
    by (simp add: wf4_def plain_node_def)
  have e: "set (dep_edges wf4) = {(''fetch'', ''join''), (''meta'', ''join''), (''join'', ''report''), (''fetch'', ''report'')}"
    by (auto simp: wf4_def plain_node_def dep_edges_def deps_def)
  have 2: "acyclic (set (dep_edges wf4))"
    unfolding e
    by (rule acyclicI_order [where f = "\<lambda>s. 4 - pos [''fetch'', ''meta'', ''join'', ''report''] s"])
      (auto simp: pos_def)
  have 3: "\<forall>n\<in>set wf4. set (deps n) \<subseteq> node_id ` set wf4"
    by (auto simp: wf4_def plain_node_def deps_def)
  have 4: "\<forall>n\<in>set wf4. distinct (deps n)"
    by (simp add: wf4_def plain_node_def deps_def)
  have 5: "\<forall>n\<in>set wf4. array_index (node_id n) = None"
    by (simp add: wf4_def plain_node_def array_index_def is_digit_def digit_val_def)
  have 6: "\<forall>n\<in>set wf4. \<not> inherited sample_runtime (node_id n)"
    by (simp add: wf4_def plain_node_def inherited_def sample_runtime_def object_prototype_names_def)
  note T = topoSort_valid_order [OF 1 2 3 4 6]
  let ?ord = "order (topoSort sample_runtime wf4)"
  have len: "length ?ord = 4" using T by (simp add: wf4_def)
  have j: "plain_node ''join'' [''fetch'', ''meta''] \<in> set wf4"
    "plain_node ''report'' [''join'', ''fetch''] \<in> set wf4"
    by (simp_all add: wf4_def)
  have d: "deps (plain_node ''join'' [''fetch'', ''meta'']) = [''fetch'', ''meta'']"
    "deps (plain_node ''report'' [''join'', ''fetch'']) = [''join'', ''fetch'']"
    "node_id (plain_node ''join'' [''fetch'', ''meta'']) = ''join''"
    "node_id (plain_node ''report'' [''join'', ''fetch'']) = ''report''"
    by (simp_all add: plain_node_def deps_def)
  from T have after: "\<forall>n\<in>set wf4. \<forall>d\<in>set (deps n). pos ?ord d < pos ?ord (node_id n)"
    by blast
  have a: "pos ?ord ''fetch'' < pos ?ord ''join''" "pos ?ord ''meta'' < pos ?ord ''join''"
    using after [rule_format, OF j(1)] unfolding d by simp_all
  have b: "pos ?ord ''join'' < pos ?ord ''report''" "pos ?ord ''fetch'' < pos ?ord ''report''"
    using after [rule_format, OF j(2)] unfolding d by simp_all
  from T 5 have fifo: "\<forall>i j. i < j \<and> j < length ?ord \<longrightarrow> fifo_before wf4 ?ord (?ord ! i) (?ord ! j)"
    by blast
  have f: "fifo_before wf4 ?ord (?ord ! 0) (?ord ! 1)" "fifo_before wf4 ?ord (?ord ! 1) (?ord ! 3)"
    using fifo [rule_format, of 0 1] fifo [rule_format, of 1 3] len by simp_all
  from T a b f show ?thesis by blast
qed

text \<open>
  Claim C1 as stated fails. The second node of \<open>wf_repeat\<close> names its only dependency
  twice: the graph is acyclic and every entry names a node, yet the node is reported as
  a cycle and never emitted. The nodes \<^verbatim>\<open>2\<close> and \<^verbatim>\<open>1\<close> of \<open>wf_numbered\<close> are ready together
  and declared in this order, yet \<^verbatim>\<open>1\<close> is emitted first. The only node of \<open>wf_lone\<close> has
  the identifier \<^verbatim>\<open>constructor\<close> and no dependency, yet the order is empty.
\<close>

theorem topoSort_valid_order_counterexample:
  "acyclic (set (dep_edges wf_repeat))
   \<and> set (deps (wf_repeat ! 0)) \<subseteq> node_id ` set wf_repeat
   \<and> set (deps (wf_repeat ! 1)) \<subseteq> node_id ` set wf_repeat
   \<and> cycles (topoSort sample_runtime wf_repeat) = [''a'']
   \<and> order (topoSort sample_runtime wf_repeat) = [''b'']
   \<and> map node_id wf_numbered = [''2'', ''1'']
   \<and> deps (wf_numbered ! 0) = [] \<and> deps (wf_numbered ! 1) = []
   \<and> order (topoSort sample_runtime wf_numbered) = [''1'', ''2'']
   \<and> map node_id wf_lone = [''constructor''] \<and> deps (wf_lone ! 0) = []
   \<and> topoSort sample_runtime wf_lone = \<lparr> order = [], cycles = [] \<rparr>"
proof -
  have e: "set (dep_edges wf_repeat) = {(''b'', ''a'')}"
    by (auto simp: wf_repeat_def plain_node_def dep_edges_def deps_def)
  have 1: "acyclic (set (dep_edges wf_repeat))"
    unfolding e by (rule acyclicI_order [where f = "\<lambda>s. 2 - pos [''b'', ''a''] s"]) (auto simp: pos_def)
  have 2: "set (deps (wf_repeat ! 0)) \<subseteq> node_id ` set wf_repeat"
    "set (deps (wf_repeat ! 1)) \<subseteq> node_id ` set wf_repeat"
    by (simp_all add: wf_repeat_def plain_node_def deps_def)
  have 3: "cycles (topoSort sample_runtime wf_repeat) = [''a'']" by code_simp
  have 4: "order (topoSort sample_runtime wf_repeat) = [''b'']" by code_simp
  have 5: "map node_id wf_numbered = [''2'', ''1'']" by (simp add: wf_numbered_def plain_node_def)
  have 6: "deps (wf_numbered ! 0) = []" "deps (wf_numbered ! 1) = []"
    by (simp_all add: wf_numbered_def plain_node_def deps_def)
  have 7: "order (topoSort sample_runtime wf_numbered) = [''1'', ''2'']" by code_simp
  have 8: "map node_id wf_lone = [''constructor'']" "deps (wf_lone ! 0) = []"
    by (simp_all add: wf_lone_def plain_node_def deps_def)
  have 9: "topoSort sample_runtime wf_lone = \<lparr> order = [], cycles = [] \<rparr>" by code_simp
  from 1 2 3 4 5 6 7 8 9 show ?thesis by blast
qed

section \<open>The execution loop\<close>

subsection \<open>The attempt loop\<close>

declare attempt_loop.simps [simp del]

lemma try_attempt_raise:
  "handler (calls r) node inp = Inl e \<Longrightarrow>
   try_attempt w handler node nid inp r =
     (Inl e, r\<lparr> reads := Suc (reads r), calls := Suc (calls r), effects := effects r @ [Invoked nid] \<rparr>)"
  by (simp add: try_attempt_def)

lemma try_attempt_timeout:
  "handler (calls r) node inp = Inr out \<Longrightarrow>
   timed_out node (clock w (Suc (reads r)) - clock w (reads r)) \<Longrightarrow>
   try_attempt w handler node nid inp r =
     (Inl (timeout_message node (clock w (Suc (reads r)) - clock w (reads r))),
      r\<lparr> reads := Suc (Suc (reads r)), calls := Suc (calls r), effects := effects r @ [Invoked nid] \<rparr>)"
  by (simp add: try_attempt_def Let_def)


lemma try_attempt_failed:
  assumes "try_attempt w handler node nid inp r = (Inl e, r')"
  shows "run_context r' = run_context r \<and> run_nodeExecutions r' = run_nodeExecutions r
     \<and> run_logs r' = run_logs r \<and> calls r' = Suc (calls r)
     \<and> effects r' = effects r @ [Invoked nid]"
  using assms
  by (auto simp: try_attempt_def Let_def split: sum.splits if_splits)

lemma after_failure_keeps:
  "run_context (after_failure w nid maxA backoff attempt e r) = run_context r
   \<and> run_nodeExecutions (after_failure w nid maxA backoff attempt e r) = run_nodeExecutions r
   \<and> calls (after_failure w nid maxA backoff attempt e r) = calls r"
  by (simp add: after_failure_def push_log_def Let_def)

lemma attempt_loop_failed:
  assumes "attempt_loop w handler node nid inp maxA backoff attempt lastE r = (False, e, r2)"
  shows "run_context r2 = run_context r \<and> run_nodeExecutions r2 = run_nodeExecutions r"
  using assms
proof (induction w handler node nid inp maxA backoff attempt lastE r rule: attempt_loop.induct)
  case (1 w handler node nid inp maxA backoff attempt lastE r)
  show ?case
  proof (cases "attempt \<le> maxA")
    case False
    with "1.prems" show ?thesis by (simp add: attempt_loop.simps)
  next
    case True
    obtain x r' where t: "try_attempt w handler node nid inp r = (x, r')"
      by (cases "try_attempt w handler node nid inp r")
    show ?thesis
    proof (cases x)
      case (Inr u)
      with True t "1.prems" show ?thesis
        by (simp add: attempt_loop.simps [of w handler node nid inp maxA backoff attempt lastE r])
    next
      case (Inl e')
      with True t "1.prems" have
        "attempt_loop w handler node nid inp maxA backoff (attempt + 1) e'
           (after_failure w nid maxA backoff attempt e' r') = (False, e, r2)"
        by (simp add: attempt_loop.simps [of w handler node nid inp maxA backoff attempt lastE r])
      from "1.IH" [OF True t [symmetric] Inl this]
      show ?thesis
        using try_attempt_failed [OF t [unfolded Inl]] after_failure_keeps [of w nid maxA backoff attempt e' r']
        by simp
    qed
  qed
qed

lemma attempt_loop_last_error:
  assumes "attempt_loop w handler node nid inp maxA backoff attempt lastE r = (False, e, r2)"
    and "attempt \<le> maxA"
  shows "\<exists>rb. fst (try_attempt w handler node nid inp rb) = Inl e \<and> Suc (calls rb) = calls r2"
  using assms
proof (induction w handler node nid inp maxA backoff attempt lastE r rule: attempt_loop.induct)
  case (1 w handler node nid inp maxA backoff attempt lastE r)
  obtain x r' where t: "try_attempt w handler node nid inp r = (x, r')"
    by (cases "try_attempt w handler node nid inp r")
  show ?case
  proof (cases x)
    case (Inr u)
    with t "1.prems" show ?thesis
      by (simp add: attempt_loop.simps [of w handler node nid inp maxA backoff attempt lastE r])
  next
    case (Inl e')
    let ?r'' = "after_failure w nid maxA backoff attempt e' r'"
    from Inl t "1.prems" have L:
      "attempt_loop w handler node nid inp maxA backoff (attempt + 1) e' ?r'' = (False, e, r2)"
      by (simp add: attempt_loop.simps [of w handler node nid inp maxA backoff attempt lastE r])
    show ?thesis
    proof (cases "attempt + 1 \<le> maxA")
      case True
      from "1.IH" [OF "1.prems"(2) t [symmetric] Inl L True] show ?thesis .
    next
      case False
      with L have "e = e'" "r2 = ?r''"
        by (auto simp: attempt_loop.simps [of w handler node nid inp maxA backoff "attempt + 1"])
      then show ?thesis
        using t Inl try_attempt_failed [OF t [unfolded Inl]]
          after_failure_keeps [of w nid maxA backoff attempt e' r']
        by (intro exI [of _ r]) simp
    qed
  qed
qed

lemma attempt_loop_fail_step:
  "attempt \<le> maxA \<Longrightarrow> try_attempt w h node nid inp r = (Inl e, r') \<Longrightarrow>
   attempt_loop w h node nid inp maxA b attempt lastE r
     = attempt_loop w h node nid inp maxA b (attempt + 1) e (after_failure w nid maxA b attempt e r')"
  by (simp add: attempt_loop.simps [of w h node nid inp maxA b attempt lastE r])


lemma attempt_loop_done:
  "\<not> attempt \<le> maxA \<Longrightarrow> attempt_loop w h node nid inp maxA b attempt lastE r = (False, lastE, r)"
  by (simp add: attempt_loop.simps [of w h node nid inp maxA b attempt lastE r])

lemma after_failure_retry:
  "attempt < maxA \<Longrightarrow>
   after_failure w nid maxA b attempt e r =
     r\<lparr> run_logs := run_logs r @
            [\<lparr> timestamp = time_of_day (clock w (reads r)), level = Info,
               message = ''Retrying '' @ nid @ '' (attempt '' @ show_int attempt @ ''/''
                          @ show_int maxA @ ''): '' @ e,
               nodeId_log = Some nid \<rparr>],
         reads := Suc (reads r), effects := effects r @ [Slept b] \<rparr>"
  by (simp add: after_failure_def push_log_def Let_def)

lemma after_failure_last: "\<not> attempt < maxA \<Longrightarrow> after_failure w nid maxA b attempt e r = r"
  by (simp add: after_failure_def)



subsection \<open>The body of the loop over the order\<close>

lemma starting_keeps:
  "run_context (starting w nid node r) = run_context r"
  "run_nodeExecutions (starting w nid node r) = run_nodeExecutions r"
  "calls (starting w nid node r) = calls r"
  "effects (starting w nid node r) = effects r"
  "reads (starting w nid node r) = Suc (reads r)"
  by (simp_all add: starting_def push_log_def)

lemma failure_report_eq:
  "(case return_failure w startTime err (push_error nid node err (push_log w Error msg (Some nid) r))
      of (out, r') \<Rightarrow> Stop out r')
   = failure_report w startTime nid node msg err r"
  by (simp add: return_failure_def push_error_def push_log_def failure_report_def)

lemma run_node_unknown:
  "nodeMap nid = None \<Longrightarrow> run_node w query startTime nodeMap nid r = Continue r"
  by (simp add: run_node_def)

lemma run_node_no_handler:
  "nodeMap nid = Some node \<Longrightarrow> ACTION_HANDLERS w (actionRef node) = None \<Longrightarrow>
   run_node w query startTime nodeMap nid r
     = failure_report w startTime nid node (''Action not implemented: '' @ actionRef node)
         (''Action not implemented: '' @ actionRef node) r"
  unfolding run_node_def Let_def failure_report_eq by simp

lemma run_node_throws:
  "nodeMap nid = Some node \<Longrightarrow> ACTION_HANDLERS w (actionRef node) = Some handler \<Longrightarrow>
   substituteQuery w (input node) query = Inl e \<Longrightarrow>
   run_node w query startTime nodeMap nid r = Stop (Threw e) (starting w nid node r)"
  unfolding run_node_def Let_def failure_report_eq starting_def [symmetric] by simp

lemma run_node_unresolved:
  "nodeMap nid = Some node \<Longrightarrow> ACTION_HANDLERS w (actionRef node) = Some handler \<Longrightarrow>
   substituteQuery w (input node) query = Inr substituted \<Longrightarrow>
   resolveInput (runtime w) substituted (run_context r) = Inl err \<Longrightarrow>
   run_node w query startTime nodeMap nid r
     = failure_report w startTime nid node (''Input resolution failed for '' @ nid @ '': '' @ err) err
         (starting w nid node r)"
  unfolding run_node_def Let_def failure_report_eq starting_def [symmetric]
  by (simp add: starting_keeps)

lemma run_node_attempts:
  "nodeMap nid = Some node \<Longrightarrow> ACTION_HANDLERS w (actionRef node) = Some handler \<Longrightarrow>
   substituteQuery w (input node) query = Inr substituted \<Longrightarrow>
   resolveInput (runtime w) substituted (run_context r) = Inr inp \<Longrightarrow>
   attempt_loop w handler node nid inp
       (case retry node of None \<Rightarrow> 1 | Some p \<Rightarrow> maxAttempts p)
       (case retry node of None \<Rightarrow> 0 | Some p \<Rightarrow> backoffMs p) 1 [] (starting w nid node r)
     = (ok, e, r2) \<Longrightarrow>
   run_node w query startTime nodeMap nid r
     = (if ok then Continue r2
        else failure_report w startTime nid node (''Failed '' @ nid @ '': '' @ e) e r2)"
  unfolding run_node_def Let_def failure_report_eq starting_def [symmetric]
  by (simp add: starting_keeps)

lemma node_map_unknown: "k \<notin> node_id ` set nds \<Longrightarrow> node_map nds k = None"
  by (force simp: node_map_def map_of_eq_None_iff)


lemma sample_facts:
  "node_map [fetch_node i t p] i = Some (fetch_node i t p)"
  "ACTION_HANDLERS w (actionRef (fetch_node i t p)) = Some (httpGetHandler w)"
  "substituteQuery (w_flaky k) (input (fetch_node i t p)) ''cats'' = Inr cats_input"
  "resolveInput (runtime (w_flaky k)) cats_input c = Inr cats_input"
  "httpGetHandler (w_flaky k) j n cats_input = flaky k j cats_input"
proof -
  show "node_map [fetch_node i t p] i = Some (fetch_node i t p)"
    by (simp add: node_map_def fetch_node_def)
  show "ACTION_HANDLERS w (actionRef (fetch_node i t p)) = Some (httpGetHandler w)"
    by (simp add: ACTION_HANDLERS_def fetch_node_def)
  have "replace_query ''cats'' [] (sample_stringify (JObj [(''url'', JStr ''https://example.org/?q={query}'')]))
      = [CHR ''{'', CHR 0x22, CHR ''u'', CHR ''r'', CHR ''l'', CHR 0x22, CHR '':'', CHR 0x22]
        @ ''https://example.org/?q=cats'' @ [CHR 0x22, CHR ''}'']"
    by code_simp
  then show "substituteQuery (w_flaky k) (input (fetch_node i t p)) ''cats'' = Inr cats_input"
    by (simp add: substituteQuery_def w_flaky_def sample_world_def fetch_node_def sample_parse_def
        cats_input_def)
  show "resolveInput (runtime (w_flaky k)) cats_input c = Inr cats_input"
    by (simp add: cats_input_def reference_def get_prop_def member_def has_prop_def w_flaky_def
        sample_world_def sample_runtime_def object_prototype_names_def object_prototype_def)
  show "httpGetHandler (w_flaky k) j n cats_input = flaky k j cats_input"
    by (simp add: httpGetHandler_def read_prop_def get_prop_def member_def cats_input_def
        w_flaky_def sample_world_def)
qed

subsection \<open>Unknown dependencies\<close>

text \<open>
  Claim C2, as amended. An identifier that a \<^verbatim>\<open>dependsOn\<close> list names, that is not the
  identifier of any node of the workflow and that is not the name of a member that every
  object inherits (such as \<^verbatim>\<open>constructor\<close>) is entered in the in-degree table with
  in-degree zero: it is emitted in the order, it is never in the cycle set, and the
  execution loop passes over it, leaving the state of the run as it is.
\<close>

theorem unknown_dependency_is_skipped:
  assumes "n \<in> set nds" and "d \<in> set (deps n)" and "d \<notin> node_id ` set nds"
    and "\<not> inherited rt d"
  shows "d \<in> set (order (topoSort rt nds)) \<and> d \<notin> set (cycles (topoSort rt nds))
     \<and> run_node w query startTime (node_map nds) d r = Continue r"
  using unknown_dependency_emitted [OF assms] node_map_unknown [OF assms(3)]
  by (simp add: run_node_def)

theorem unknown_dependency_is_skipped_witness:
  "''ghost'' \<in> set (order (topoSort sample_runtime wf_ghost))
     \<and> ''ghost'' \<notin> set (cycles (topoSort sample_runtime wf_ghost))
     \<and> run_node (sample_world (\<lambda>k. 0) (flaky 0)) ''cats'' 0 (node_map wf_ghost) ''ghost'' empty_run
         = Continue empty_run"
proof -
  have 1: "plain_node ''a'' [''ghost''] \<in> set wf_ghost" by (simp add: wf_ghost_def)
  have 2: "''ghost'' \<in> set (deps (plain_node ''a'' [''ghost'']))" by (simp add: plain_node_def deps_def)
  have 3: "''ghost'' \<notin> node_id ` set wf_ghost" by (simp add: wf_ghost_def plain_node_def)
  have 4: "\<not> inherited sample_runtime ''ghost''"
    by (simp add: inherited_def sample_runtime_def object_prototype_names_def)
  show ?thesis
    using unknown_dependency_is_skipped [OF 1 2 3 4, of "sample_world (\<lambda>k. 0) (flaky 0)" "''cats''" 0 empty_run]
    by simp
qed

text \<open>
  Claim C2 as stated fails: the only node of \<open>wf_ghost\<close> depends on an identifier that no
  node has, yet the cycle set is empty, the unknown identifier and the node are both in
  the order, and the run invokes the handler of the node. (When the unknown identifier is
  the name of an inherited member, as in \<open>wf_inherited\<close>, the table gets no entry for it:
  the node is never emitted and is reported as a cycle.)
\<close>

theorem unknown_dependency_counterexample:
  "''ghost'' \<in> set (deps (wf_ghost ! 0)) \<and> ''ghost'' \<notin> set (map node_id wf_ghost)
   \<and> topoSort sample_runtime wf_ghost = \<lparr> order = [''ghost'', ''a''], cycles = [] \<rparr>
   \<and> snd (executeWorkflow (sample_world (\<lambda>k. 0) (flaky 0)) (sample_workflow wf_ghost) ''cats'')
       = [Invoked ''a'']
   \<and> topoSort sample_runtime wf_inherited = \<lparr> order = [], cycles = [''a''] \<rparr>"
proof -
  have 5: "topoSort sample_runtime wf_inherited = \<lparr> order = [], cycles = [''a''] \<rparr>" by code_simp
  have 1: "''ghost'' \<in> set (deps (wf_ghost ! 0))" by (simp add: wf_ghost_def plain_node_def deps_def)
  have 2: "''ghost'' \<notin> set (map node_id wf_ghost)" by (simp add: wf_ghost_def plain_node_def)
  have 3: "topoSort sample_runtime wf_ghost = \<lparr> order = [''ghost'', ''a''], cycles = [] \<rparr>" by code_simp
  have 4: "snd (executeWorkflow (sample_world (\<lambda>k. 0) (flaky 0)) (sample_workflow wf_ghost) ''cats'')
       = [Invoked ''a'']" by code_simp
  from 1 2 3 4 5 show ?thesis by blast
qed

subsection \<open>An exception that leaves the engine\<close>

text \<open>
  Claim C3 is what the engine should do, and the code misses it. The template of the
  node of \<open>wf_quote\<close> holds the query placeholder inside a string, and the query is one
  double quote: the substituted text is not JSON, \<^verbatim>\<open>JSON.parse\<close> throws inside
  \<^verbatim>\<open>substituteQuery\<close>, which is called outside every \<^verbatim>\<open>try\<close>, and the exception leaves
  \<^verbatim>\<open>executeWorkflow\<close>: the caller gets no report.
\<close>

theorem executeWorkflow_throws_on_quote:
  "fst (executeWorkflow (sample_world (\<lambda>k. 0) (flaky 0)) wf_quote [CHR 0x22])
     = Threw ''Unexpected string in JSON''"
  by code_simp

subsection \<open>Cycles\<close>

text \<open>
  On a workflow with ordinary identifiers a cycle ends the run before any node.  If the
  dependency graph has a cycle, \<^verbatim>\<open>topoSort\<close> returns a cycle set that is not empty and
  holds every node on a cycle, and \<^verbatim>\<open>executeWorkflow\<close> returns a report with \<^verbatim>\<open>success\<close>
  false and the one error message that lists the cycle set; the report has no node
  execution, its log holds the two opening entries only, and the run has no effect: no
  handler is invoked.
\<close>

lemma cycle_aborts_run:
  assumes "\<not> acyclic (set (dep_edges (nodes workflow)))"
    and "ordinary (runtime w) (nodes workflow)"
  shows "cycles (topoSort (runtime w) (nodes workflow)) \<noteq> []
     \<and> (\<forall>x. (x, x) \<in> (set (dep_edges (nodes workflow)))\<^sup>+
           \<longrightarrow> x \<in> set (cycles (topoSort (runtime w) (nodes workflow))))
     \<and> (\<exists>res. executeWorkflow w workflow query = (Returned res, [])
           \<and> success res = False \<and> nodeExecutions res = []
           \<and> error res = Some (''Cycle detected: ''
                 @ join '', '' (cycles (topoSort (runtime w) (nodes workflow))))
           \<and> map message (logs res)
               = [''Starting workflow: '' @ name (metadata workflow), ''Query: '' @ query])"
proof -
  note n = topoSort_ordinary [OF assms(2)]
  from assms(1) obtain x where "(x, x) \<in> (set (dep_edges (nodes workflow)))\<^sup>+"
    by (auto simp: acyclic_def)
  then have "x \<in> set (cycles (topoSort_num (nodes workflow)))" by (rule on_cycle_in_cycles)
  then have c: "cycles (topoSort_num (nodes workflow)) \<noteq> []" by auto
  have "\<exists>res. executeWorkflow w workflow query = (Returned res, [])
           \<and> success res = False \<and> nodeExecutions res = []
           \<and> error res = Some (''Cycle detected: '' @ join '', '' (cycles (topoSort_num (nodes workflow))))
           \<and> map message (logs res)
               = [''Starting workflow: '' @ name (metadata workflow), ''Query: '' @ query]"
    using c by (simp add: executeWorkflow_def n Let_def return_failure_def push_log_def)
  with c on_cycle_in_cycles show ?thesis unfolding n by blast
qed

text \<open>
  Claim C4 is what the engine should do, and the code misses it. The only node of
  \<open>wf_constructor\<close> has the identifier \<^verbatim>\<open>constructor\<close> and depends on itself, so the
  dependency graph has a cycle. The table of in-degrees inherits a member of that name:
  \<^verbatim>\<open>indeg[n.id] ??= 0\<close> writes nothing, and adding 1 to the member gives a text, which is
  neither zero nor positive. So \<^verbatim>\<open>topoSort\<close> returns an empty cycle set and an empty order,
  and \<^verbatim>\<open>executeWorkflow\<close> reports a success, without any node execution. In the workflow
  \<open>wf_cycle\<close>, with ordinary identifiers, the cycle is found and the run is not a success.
\<close>

theorem cycle_on_inherited_name_runs:
  "(''constructor'', ''constructor'') \<in> set (dep_edges wf_constructor)
   \<and> topoSort sample_runtime wf_constructor = \<lparr> order = [], cycles = [] \<rparr>
   \<and> map_option success
        (report (fst (executeWorkflow (sample_world (\<lambda>k. 0) (flaky 0)) (sample_workflow wf_constructor) ''cats'')))
       = Some True
   \<and> map_option error
        (report (fst (executeWorkflow (sample_world (\<lambda>k. 0) (flaky 0)) (sample_workflow wf_constructor) ''cats'')))
       = Some None
   \<and> map_option nodeExecutions
        (report (fst (executeWorkflow (sample_world (\<lambda>k. 0) (flaky 0)) (sample_workflow wf_constructor) ''cats'')))
       = Some []
   \<and> topoSort sample_runtime wf_cycle = \<lparr> order = [''c''], cycles = [''a'', ''b''] \<rparr>
   \<and> map_option error
        (report (fst (executeWorkflow (sample_world (\<lambda>k. 0) (flaky 0)) (sample_workflow wf_cycle) ''cats'')))
       = Some (Some ''Cycle detected: a, b'')"
proof -
  have 1: "(''constructor'', ''constructor'') \<in> set (dep_edges wf_constructor)"
    by (simp add: wf_constructor_def plain_node_def dep_edges_def deps_def)
  have 2: "topoSort sample_runtime wf_constructor = \<lparr> order = [], cycles = [] \<rparr>"
    by code_simp
  have 3: "map_option success
        (report (fst (executeWorkflow (sample_world (\<lambda>k. 0) (flaky 0)) (sample_workflow wf_constructor) ''cats'')))
       = Some True"
    by code_simp
  have 4: "map_option error
        (report (fst (executeWorkflow (sample_world (\<lambda>k. 0) (flaky 0)) (sample_workflow wf_constructor) ''cats'')))
       = Some None"
    by code_simp
  have 5: "map_option nodeExecutions
        (report (fst (executeWorkflow (sample_world (\<lambda>k. 0) (flaky 0)) (sample_workflow wf_constructor) ''cats'')))
       = Some []"
    by code_simp
  have 6: "topoSort sample_runtime wf_cycle = \<lparr> order = [''c''], cycles = [''a'', ''b''] \<rparr>"
    by code_simp
  have 7: "map_option error
        (report (fst (executeWorkflow (sample_world (\<lambda>k. 0) (flaky 0)) (sample_workflow wf_cycle) ''cats'')))
       = Some (Some ''Cycle detected: a, b'')"
    by code_simp
  from 1 2 3 4 5 6 7 show ?thesis by blast
qed

subsection \<open>Retries\<close>



subsection \<open>Timeouts\<close>

text \<open>
  Claim C7, as amended. Let a node declare a timeout that is not zero, let its handler
  return an output, and let the duration measured around the invocation exceed the
  timeout. The handler has been invoked and has returned (nothing cancels it); the
  attempt then fails with the message \<^verbatim>\<open>Timeout exceeded\<close>, and the context and the node
  executions are as before the attempt, so the output is not stored. The loop treats the
  failure as it treats a failure raised by a handler: when attempts remain it logs a
  retry entry with the message, sleeps for the backoff and makes the next attempt, and
  on the last attempt it ends without success, the message being the last error.
\<close>

theorem timeout_is_a_failed_attempt:
  assumes "timeoutMs node = Some t" and "t \<noteq> 0"
    and "handler (calls r) node inp = Inr out"
    and "clock w (Suc (reads r)) - clock w (reads r) > t"
  shows "try_attempt w handler node nid inp r
           = (Inl (''Timeout exceeded: '' @ show_int (clock w (Suc (reads r)) - clock w (reads r))
                     @ ''ms > '' @ show_int t @ ''ms''),
              r\<lparr> reads := Suc (Suc (reads r)), calls := Suc (calls r),
                 effects := effects r @ [Invoked nid] \<rparr>)
     \<and> run_context (snd (try_attempt w handler node nid inp r)) = run_context r
     \<and> run_nodeExecutions (snd (try_attempt w handler node nid inp r)) = run_nodeExecutions r
     \<and> (attempt < maxA \<longrightarrow>
          attempt_loop w handler node nid inp maxA b attempt lastE r
            = attempt_loop w handler node nid inp maxA b (attempt + 1)
                (''Timeout exceeded: '' @ show_int (clock w (Suc (reads r)) - clock w (reads r))
                     @ ''ms > '' @ show_int t @ ''ms'')
                (r\<lparr> run_logs := run_logs r @
                       [\<lparr> timestamp = time_of_day (clock w (Suc (Suc (reads r)))), level = Info,
                          message = ''Retrying '' @ nid @ '' (attempt '' @ show_int attempt @ ''/''
                            @ show_int maxA @ ''): '' @ ''Timeout exceeded: ''
                            @ show_int (clock w (Suc (reads r)) - clock w (reads r))
                            @ ''ms > '' @ show_int t @ ''ms'',
                          nodeId_log = Some nid \<rparr>],
                    reads := Suc (Suc (Suc (reads r))), calls := Suc (calls r),
                    effects := effects r @ [Invoked nid, Slept b] \<rparr>))
     \<and> (attempt = maxA \<longrightarrow>
          attempt_loop w handler node nid inp maxA b attempt lastE r
            = (False,
               ''Timeout exceeded: '' @ show_int (clock w (Suc (reads r)) - clock w (reads r))
                     @ ''ms > '' @ show_int t @ ''ms'',
               r\<lparr> reads := Suc (Suc (reads r)), calls := Suc (calls r),
                  effects := effects r @ [Invoked nid] \<rparr>))
     \<and> (\<forall>raising e. raising (calls r) node inp = Inl e \<longrightarrow>
          (attempt < maxA \<longrightarrow>
            attempt_loop w raising node nid inp maxA b attempt lastE r
              = attempt_loop w raising node nid inp maxA b (attempt + 1) e
                  (r\<lparr> run_logs := run_logs r @
                         [\<lparr> timestamp = time_of_day (clock w (Suc (reads r))), level = Info,
                            message = ''Retrying '' @ nid @ '' (attempt '' @ show_int attempt @ ''/''
                              @ show_int maxA @ ''): '' @ e,
                            nodeId_log = Some nid \<rparr>],
                      reads := Suc (Suc (reads r)), calls := Suc (calls r),
                      effects := effects r @ [Invoked nid, Slept b] \<rparr>))
          \<and> (attempt = maxA \<longrightarrow>
            attempt_loop w raising node nid inp maxA b attempt lastE r
              = (False, e, r\<lparr> reads := Suc (reads r), calls := Suc (calls r),
                               effects := effects r @ [Invoked nid] \<rparr>)))"
proof -
  let ?d = "clock w (Suc (reads r)) - clock w (reads r)"
  let ?msg = "''Timeout exceeded: '' @ show_int ?d @ ''ms > '' @ show_int t @ ''ms''"
  let ?r2 = "r\<lparr> reads := Suc (Suc (reads r)), calls := Suc (calls r),
                 effects := effects r @ [Invoked nid] \<rparr>"
  have to: "timed_out node ?d" using assms(1,2,4) by (simp add: timed_out_def)
  have m: "timeout_message node ?d = ?msg" using assms(1) by (simp add: timeout_message_def)
  have T: "try_attempt w handler node nid inp r = (Inl ?msg, ?r2)"
    using try_attempt_timeout [where handler = handler and r = r and node = node and inp = inp
        and out = out and w = w and nid = nid, OF assms(3) to] m by simp
  have A: "attempt_loop w handler node nid inp maxA b attempt lastE r
            = attempt_loop w handler node nid inp maxA b (attempt + 1) ?msg
                (after_failure w nid maxA b attempt ?msg ?r2)" if "attempt \<le> maxA"
    using attempt_loop_fail_step [OF that T] .
  have B: "attempt_loop w raising node nid inp maxA b attempt lastE r
            = attempt_loop w raising node nid inp maxA b (attempt + 1) e
                (after_failure w nid maxA b attempt e
                   (r\<lparr> reads := Suc (reads r), calls := Suc (calls r),
                       effects := effects r @ [Invoked nid] \<rparr>))"
    if "attempt \<le> maxA" "raising (calls r) node inp = Inl e" for raising e
    using attempt_loop_fail_step [OF that(1) try_attempt_raise [where handler = raising, OF that(2)]] .
  show ?thesis
  proof (intro conjI allI impI)
    show "try_attempt w handler node nid inp r = (Inl ?msg, ?r2)" by (rule T)
    show "run_context (snd (try_attempt w handler node nid inp r)) = run_context r"
      unfolding T by simp
    show "run_nodeExecutions (snd (try_attempt w handler node nid inp r)) = run_nodeExecutions r"
      unfolding T by simp
  next
    assume lt: "attempt < maxA"
    then have le: "attempt \<le> maxA" by simp
    have S: "after_failure w nid maxA b attempt ?msg ?r2
       = r\<lparr> run_logs := run_logs r @
                       [\<lparr> timestamp = time_of_day (clock w (Suc (Suc (reads r)))), level = Info,
                          message = ''Retrying '' @ nid @ '' (attempt '' @ show_int attempt @ ''/''
                            @ show_int maxA @ ''): '' @ ''Timeout exceeded: ''
                            @ show_int (clock w (Suc (reads r)) - clock w (reads r))
                            @ ''ms > '' @ show_int t @ ''ms'',
                          nodeId_log = Some nid \<rparr>],
                    reads := Suc (Suc (Suc (reads r))), calls := Suc (calls r),
                    effects := effects r @ [Invoked nid, Slept b] \<rparr>"
      using lt by (simp add: after_failure_retry)
    show "attempt_loop w handler node nid inp maxA b attempt lastE r
            = attempt_loop w handler node nid inp maxA b (attempt + 1) ?msg
                (r\<lparr> run_logs := run_logs r @
                       [\<lparr> timestamp = time_of_day (clock w (Suc (Suc (reads r)))), level = Info,
                          message = ''Retrying '' @ nid @ '' (attempt '' @ show_int attempt @ ''/''
                            @ show_int maxA @ ''): '' @ ''Timeout exceeded: ''
                            @ show_int (clock w (Suc (reads r)) - clock w (reads r))
                            @ ''ms > '' @ show_int t @ ''ms'',
                          nodeId_log = Some nid \<rparr>],
                    reads := Suc (Suc (Suc (reads r))), calls := Suc (calls r),
                    effects := effects r @ [Invoked nid, Slept b] \<rparr>)"
      unfolding A [OF le] S by (rule refl)
  next
    assume eq: "attempt = maxA"
    then show "attempt_loop w handler node nid inp maxA b attempt lastE r = (False, ?msg, ?r2)"
      using A by (simp add: after_failure_last attempt_loop_done)
  next
    fix raising :: ActionHandler and e :: string assume r: "raising (calls r) node inp = Inl e" and lt: "attempt < maxA"
    then have le: "attempt \<le> maxA" by simp
    have S: "after_failure w nid maxA b attempt e
                   (r\<lparr> reads := Suc (reads r), calls := Suc (calls r),
                       effects := effects r @ [Invoked nid] \<rparr>)
       = r\<lparr> run_logs := run_logs r @
                         [\<lparr> timestamp = time_of_day (clock w (Suc (reads r))), level = Info,
                            message = ''Retrying '' @ nid @ '' (attempt '' @ show_int attempt @ ''/''
                              @ show_int maxA @ ''): '' @ e,
                            nodeId_log = Some nid \<rparr>],
                      reads := Suc (Suc (reads r)), calls := Suc (calls r),
                      effects := effects r @ [Invoked nid, Slept b] \<rparr>"
      using lt by (simp add: after_failure_retry)
    show "attempt_loop w raising node nid inp maxA b attempt lastE r
              = attempt_loop w raising node nid inp maxA b (attempt + 1) e
                  (r\<lparr> run_logs := run_logs r @
                         [\<lparr> timestamp = time_of_day (clock w (Suc (reads r))), level = Info,
                            message = ''Retrying '' @ nid @ '' (attempt '' @ show_int attempt @ ''/''
                              @ show_int maxA @ ''): '' @ e,
                            nodeId_log = Some nid \<rparr>],
                      reads := Suc (Suc (reads r)), calls := Suc (calls r),
                      effects := effects r @ [Invoked nid, Slept b] \<rparr>)"
      unfolding B [of raising e, OF le r] S by (rule refl)
  next
    fix raising :: ActionHandler and e :: string assume r: "raising (calls r) node inp = Inl e" and eq: "attempt = maxA"
    then show "attempt_loop w raising node nid inp maxA b attempt lastE r
              = (False, e, r\<lparr> reads := Suc (reads r), calls := Suc (calls r),
                               effects := effects r @ [Invoked nid] \<rparr>)"
      using B [of raising e] by (simp add: after_failure_last attempt_loop_done)
  qed
qed

theorem timeout_is_a_failed_attempt_witness:
  "fst (try_attempt (w_flaky 0) (httpGetHandler (w_flaky 0)) (fetch_node ''a'' (Some 5) None) ''a''
          cats_input empty_run)
     = Inl (''Timeout exceeded: ''
              @ show_int (clock (w_flaky 0) (Suc (reads empty_run)) - clock (w_flaky 0) (reads empty_run))
              @ ''ms > '' @ show_int 5 @ ''ms'')
   \<and> run_context (snd (try_attempt (w_flaky 0) (httpGetHandler (w_flaky 0))
          (fetch_node ''a'' (Some 5) None) ''a'' cats_input empty_run)) = run_context empty_run"
proof -
  let ?w = "w_flaky 0"
  have 1: "timeoutMs (fetch_node ''a'' (Some 5) None) = Some 5" by (simp add: fetch_node_def)
  have 2: "(5::int) \<noteq> 0" by simp
  have 3: "httpGetHandler ?w (calls empty_run) (fetch_node ''a'' (Some 5) None) cats_input = Inr ok_output"
    by (simp add: sample_facts flaky_def ok_output_def)
  have 4: "clock ?w (Suc (reads empty_run)) - clock ?w (reads empty_run) > 5"
    by (simp add: w_flaky_def sample_world_def empty_run_def)
  note T = timeout_is_a_failed_attempt [where w = ?w and handler = "httpGetHandler ?w"
      and node = "fetch_node ''a'' (Some 5) None" and r = empty_run and inp = cats_input and t = 5
      and out = ok_output and nid = "''a''", OF 1 2 3 4]
  from T [THEN conjunct1] have a: "fst (try_attempt ?w (httpGetHandler ?w) (fetch_node ''a'' (Some 5) None) ''a''
          cats_input empty_run)
     = Inl (''Timeout exceeded: ''
              @ show_int (clock ?w (Suc (reads empty_run)) - clock ?w (reads empty_run))
              @ ''ms > '' @ show_int 5 @ ''ms'')"
    by (rule arg_cong [where f = fst, THEN trans]) (rule fst_conv)
  from a T [THEN conjunct2, THEN conjunct1] show ?thesis
    by (rule conjI)
qed

text \<open>
  Claim C7 as stated fails for a declared timeout of zero: the condition
  \<^verbatim>\<open>node.timeoutMs && ...\<close> is false for it. The handler of the node takes 7 ms, which
  exceeds the timeout of 0 ms, and the node ends in a success record.
\<close>

theorem timeout_zero_counterexample:
  "timeoutMs (fetch_node ''a'' (Some 0) None) = Some 0
   \<and> map_option (\<lambda>res. map durationMs (nodeExecutions res))
        (report (fst (executeWorkflow (w_flaky 0) (sample_workflow [fetch_node ''a'' (Some 0) None]) ''cats'')))
       = Some [7]
   \<and> map_option (\<lambda>res. map status (nodeExecutions res))
        (report (fst (executeWorkflow (w_flaky 0) (sample_workflow [fetch_node ''a'' (Some 0) None]) ''cats'')))
       = Some [NodeSuccess]
   \<and> map_option success
        (report (fst (executeWorkflow (w_flaky 0) (sample_workflow [fetch_node ''a'' (Some 0) None]) ''cats'')))
       = Some True"
proof -
  have 1: "timeoutMs (fetch_node ''a'' (Some 0) None) = Some 0" by (simp add: fetch_node_def)
  have 2: "map_option (\<lambda>res. map durationMs (nodeExecutions res))
        (report (fst (executeWorkflow (w_flaky 0) (sample_workflow [fetch_node ''a'' (Some 0) None]) ''cats'')))
       = Some [7]" by code_simp
  have 3: "map_option (\<lambda>res. map status (nodeExecutions res))
        (report (fst (executeWorkflow (w_flaky 0) (sample_workflow [fetch_node ''a'' (Some 0) None]) ''cats'')))
       = Some [NodeSuccess]" by code_simp
  have 4: "map_option success
        (report (fst (executeWorkflow (w_flaky 0) (sample_workflow [fetch_node ''a'' (Some 0) None]) ''cats'')))
       = Some True" by code_simp
  from 1 2 3 4 show ?thesis by blast
qed

subsection \<open>Terminal errors\<close>

text \<open>
  Claim C10. Whenever the body of the loop ends the run with a report, for whatever
  clock, the report holds the node executions so far and one more record, for this
  node, with status error, a duration of zero and the error message of the report. The
  message is \<^verbatim>\<open>Action not implemented\<close> for a missing handler, the message of
  \<^verbatim>\<open>resolveInput\<close> when the input does not resolve, and otherwise, when there is at least
  one attempt, the message with which the last invocation of the handler failed.
\<close>

theorem terminal_error_record:
  assumes "run_node w query startTime nodeMap nid r = Stop (Returned res) r'"
  shows "(\<exists>rec e. nodeExecutions res = run_nodeExecutions r @ [rec]
           \<and> nodeId rec = nid \<and> status rec = NodeError \<and> durationMs rec = 0
           \<and> error_node rec = Some e \<and> error res = Some e \<and> success res = False)
     \<and> (\<forall>node. nodeMap nid = Some node \<and> ACTION_HANDLERS w (actionRef node) = None
           \<longrightarrow> error res = Some (''Action not implemented: '' @ actionRef node))
     \<and> (\<forall>node handler substituted err. nodeMap nid = Some node
           \<and> ACTION_HANDLERS w (actionRef node) = Some handler
           \<and> substituteQuery w (input node) query = Inr substituted
           \<and> resolveInput (runtime w) substituted (run_context r) = Inl err
           \<longrightarrow> error res = Some err)
     \<and> (\<forall>node handler substituted inp. nodeMap nid = Some node
           \<and> ACTION_HANDLERS w (actionRef node) = Some handler
           \<and> substituteQuery w (input node) query = Inr substituted
           \<and> resolveInput (runtime w) substituted (run_context r) = Inr inp
           \<and> 1 \<le> (case retry node of None \<Rightarrow> 1 | Some p \<Rightarrow> maxAttempts p)
           \<longrightarrow> (\<exists>rb e. fst (try_attempt w handler node nid inp rb) = Inl e
                  \<and> Suc (calls rb) = calls r' \<and> error res = Some e))"
proof -
  from assms obtain node where node: "nodeMap nid = Some node"
    by (cases "nodeMap nid") (auto simp: run_node_unknown)
  show ?thesis
  proof (cases "ACTION_HANDLERS w (actionRef node)")
    case None
    from assms show ?thesis
      unfolding run_node_no_handler [where nodeMap = nodeMap and nid = nid, OF node None] failure_report_def
      using node None by auto
  next
    case (Some handler)
    show ?thesis
    proof (cases "substituteQuery w (input node) query")
      case (Inl e)
      from assms show ?thesis
        unfolding run_node_throws [where nodeMap = nodeMap and nid = nid, OF node Some Inl] by simp
    next
      case sub: (Inr substituted)
      show ?thesis
      proof (cases "resolveInput (runtime w) substituted (run_context r)")
        case (Inl err)
        from assms show ?thesis
          unfolding run_node_unresolved [where nodeMap = nodeMap and nid = nid, OF node Some sub Inl] failure_report_def
          using node Some sub Inl by (auto simp: starting_keeps)
      next
        case (Inr inp)
        define maxA where "maxA = (case retry node of None \<Rightarrow> 1 | Some p \<Rightarrow> maxAttempts p)"
        define backoff where "backoff = (case retry node of None \<Rightarrow> 0 | Some p \<Rightarrow> backoffMs p)"
        obtain ok e r2 where
          L: "attempt_loop w handler node nid inp maxA backoff 1 [] (starting w nid node r) = (ok, e, r2)"
          by (cases "attempt_loop w handler node nid inp maxA backoff 1 [] (starting w nid node r)") auto
        note U = run_node_attempts [where nodeMap = nodeMap and nid = nid, OF node Some sub Inr L [unfolded maxA_def backoff_def]]
        from assms have nok: "\<not> ok" unfolding U by (auto split: if_splits)
        from assms nok have S: "failure_report w startTime nid node (''Failed '' @ nid @ '': '' @ e) e r2
            = Stop (Returned res) r'"
          unfolding U by simp
        from L nok have L': "attempt_loop w handler node nid inp maxA backoff 1 [] (starting w nid node r)
             = (False, e, r2)" by simp
        have k: "run_nodeExecutions r2 = run_nodeExecutions r"
          using attempt_loop_failed [OF L'] by (simp add: starting_keeps)
        have last: "\<exists>rb e'. fst (try_attempt w handler node nid inp rb) = Inl e'
                  \<and> Suc (calls rb) = calls r' \<and> error res = Some e'" if "1 \<le> maxA"
          using attempt_loop_last_error [OF L' that] S by (auto simp: failure_report_def)
        have 1: "\<exists>rec e. nodeExecutions res = run_nodeExecutions r @ [rec]
           \<and> nodeId rec = nid \<and> status rec = NodeError \<and> durationMs rec = 0
           \<and> error_node rec = Some e \<and> error res = Some e \<and> success res = False"
          using S k by (auto simp: failure_report_def)
        from 1 last show ?thesis
          using node Some sub Inr unfolding maxA_def by auto
      qed
    qed
  qed
qed

theorem terminal_error_record_witness:
  "\<exists>rec e. nodeExecutions (the (stopped (run_node (w_flaky 1) ''cats'' 0 (node_map [fetch_node ''a'' None None]) ''a'' empty_run)))
              = run_nodeExecutions empty_run @ [rec]
        \<and> nodeId rec = ''a'' \<and> status rec = NodeError \<and> durationMs rec = 0
        \<and> error_node rec = Some e
        \<and> error (the (stopped (run_node (w_flaky 1) ''cats'' 0 (node_map [fetch_node ''a'' None None]) ''a'' empty_run))) = Some e"
proof -
  let ?s = "run_node (w_flaky 1) ''cats'' 0 (node_map [fetch_node ''a'' None None]) ''a'' empty_run"
  have "?s = Stop (Returned (the (stopped ?s))) (step_run ?s)"
    by code_simp
  from terminal_error_record [OF this] show ?thesis by blast
qed


section \<open>Runs that differ in the clock\<close>




















section \<open>Inherited members elsewhere in the engine\<close>

text \<open>
  The table of handlers is a plain object too. An action named \<^verbatim>\<open>toString\<close> is not one of
  the three actions, yet the lookup finds the inherited function, the test
  \<^verbatim>\<open>if (!handler)\<close> passes, and the function is called as the handler: the node succeeds
  with the text \<^verbatim>\<open>[object Undefined]\<close> as its output. An action named \<^verbatim>\<open>__proto__\<close> finds the
  prototype itself, which cannot be called: the attempt fails. An action that names
  nothing is reported as not implemented.
\<close>

lemma inherited_handler_is_invoked:
  "map_option (map (\<lambda>e. (status e, outputData e)) \<circ> nodeExecutions)
     (report (fst (executeWorkflow (sample_world (\<lambda>k. 0) (flaky 0)) wf_toString ''cats'')))
     = Some [(NodeSuccess, Some (JStr ''[object Undefined]''))]"
  "ACTION_HANDLERS (sample_world (\<lambda>k. 0) (flaky 0)) ''__proto__'' \<noteq> None"
  "map_option (\<lambda>h. h 0 (plain_node ''a'' []) (JObj []))
     (ACTION_HANDLERS (sample_world (\<lambda>k. 0) (flaky 0)) ''__proto__'')
     = Some (Inl ''handler is not a function'')"
  "ACTION_HANDLERS (sample_world (\<lambda>k. 0) (flaky 0)) ''plugin.missing'' = None"
  by code_simp+

text \<open>
  In \<^verbatim>\<open>resolveInput\<close> the member \<^verbatim>\<open>__proto__\<close> of an input template does not become a member
  of the resolved input: it becomes its prototype, so the resolved input has the one own
  member \<^verbatim>\<open>b\<close> and inherits the member \<^verbatim>\<open>a\<close>.
\<close>

lemma resolveInput_proto:
  "resolveInput sample_runtime proto_input [] = Inr (JObjProto (JObj [(''a'', JNum 1)]) [(''b'', JNum 2)])"
  "jqEval sample_runtime (JObjProto (JObj [(''a'', JNum 1)]) [(''b'', JNum 2)]) ''keys''
     = Inr (JArr [JStr ''b''])"
  "jqEval sample_runtime (JObjProto (JObj [(''a'', JNum 1)]) [(''b'', JNum 2)]) ''.a''
     = Inr (JNum 1)"
  by code_simp+

end
